theory Spec2Isabelle
  imports Main "HOL-Library.Multiset" "HOL-Library.Sublist"
begin

section \<open>Data model of bigd (src/main.go)\<close>

text \<open>
  A Go \<open>error\<close> value is either the one made by \<open>errors.New\<close> inside \<open>funnel\<close> or a value
  handed back by the standard library (\<open>os\<close>, \<open>compress/gzip\<close>, \<open>io/ioutil\<close>).
\<close>

datatype error = errors_New string | lib_error string

text \<open>\<open>os.FileInfo\<close>, of which the program reads \<open>Name()\<close> and \<open>IsDir()\<close> only.\<close>

record fileInfo =
  Name :: string
  IsDir :: bool

record filesInfo =
  dir :: string
  fsi :: "fileInfo list"

record result =
  path :: string
  data :: string
  err :: "error option"

section \<open>gzFilesInfoIn\<close>

text \<open>\<open>strings.HasSuffix(s, suffix)\<close>: \<open>len(s) >= len(suffix) && s[len(s)-len(suffix):] == suffix\<close>.\<close>

definition HasSuffix :: "string \<Rightarrow> string \<Rightarrow> bool" where
  "HasSuffix s suf \<longleftrightarrow>
     length s \<ge> length suf \<and> drop (length s - length suf) s = suf"

text \<open>
  The loop \<open>for k := len(fsi) - 1; k >= 0; k--\<close> of \<open>gzFilesInfoIn\<close>. The first argument is
  \<open>k + 1\<close>, so that \<open>0\<close> is the exit \<open>k < 0\<close>. Reading \<open>fsi[k]\<close> beyond the length panics in Go:
  that is the result \<open>None\<close>. \<open>append(fsi[:k], fsi[k+1:]...)\<close> is the slice without its
  element \<open>k\<close>.
\<close>

fun prune :: "nat \<Rightarrow> fileInfo list \<Rightarrow> fileInfo list option" where
  "prune 0 fs = Some fs"
| "prune (Suc k) fs =
     (if k < length fs then
        (if IsDir (fs ! k) \<or> \<not> HasSuffix (Name (fs ! k)) ''.gz''
         then prune k (take k fs @ drop (Suc k) fs)
         else prune k fs)
      else None)"

text \<open>
  \<open>gzFilesInfoIn\<close> with \<open>ioutil.ReadDir\<close> as a parameter. \<open>Some (Inl e)\<close> is the return
  \<open>(nil, err)\<close>, \<open>Some (Inr fi)\<close> the return \<open>(&filesInfo{...}, nil)\<close>, \<open>None\<close> a panic.
\<close>

definition gzFilesInfoIn ::
  "(string \<Rightarrow> error + fileInfo list) \<Rightarrow> string \<Rightarrow> (error + filesInfo) option" where
  "gzFilesInfoIn ReadDir d =
     (case ReadDir d of
        Inl e \<Rightarrow> Some (Inl e)
      | Inr l \<Rightarrow>
          (case prune (length l) l of
             None \<Rightarrow> None
           | Some l' \<Rightarrow> Some (Inr \<lparr>dir = d, fsi = l'\<rparr>)))"

text \<open>What the loop keeps: a file, not a directory, whose name ends in \<open>.gz\<close>.\<close>

definition keeps :: "fileInfo \<Rightarrow> bool" where
  "keeps f \<longleftrightarrow> \<not> IsDir f \<and> suffix ''.gz'' (Name f)"

section \<open>The per-item body of digest\<close>

text \<open>
  The library calls of the closure in \<open>digest\<close>: \<open>os.Open\<close> and \<open>gzip.NewReader\<close> return a
  handle or an error; \<open>ioutil.ReadAll\<close> returns the bytes read so far together with an
  optional error.
\<close>

record ('f, 'z) env =
  os_Open :: "string \<Rightarrow> error + 'f"
  gzip_NewReader :: "'f \<Rightarrow> error + 'z"
  ioutil_ReadAll :: "'z \<Rightarrow> string \<times> error option"

text \<open>
  \<open>r := result{path: p}\<close> followed by the closure (lines 89 to 117). The deferred \<open>Close\<close>
  calls discard their results and leave \<open>r\<close> alone.
\<close>

definition digest_body :: "('f, 'z) env \<Rightarrow> string \<Rightarrow> result" where
  "digest_body env p =
     (let r = \<lparr>path = p, data = [], err = None\<rparr> in
      case os_Open env p of
        Inl e \<Rightarrow> r\<lparr>err := Some e\<rparr>
      | Inr f \<Rightarrow>
          (case gzip_NewReader env f of
             Inl e \<Rightarrow> r\<lparr>err := Some e\<rparr>
           | Inr gzr \<Rightarrow>
               (case ioutil_ReadAll env gzr of
                  (d, Some e) \<Rightarrow> r\<lparr>err := Some e\<rparr>
                | (d, None) \<Rightarrow> r\<lparr>data := d\<rparr>)))"

text \<open>A directory and a file system to run the definitions on.\<close>

definition listing0 :: "fileInfo list" where
  "listing0 =
     [\<lparr>Name = ''a.gz'', IsDir = False\<rparr>, \<lparr>Name = ''sub.gz'', IsDir = True\<rparr>,
      \<lparr>Name = ''notes.txt'', IsDir = False\<rparr>, \<lparr>Name = ''b.gz'', IsDir = False\<rparr>]"

definition ReadDir0 :: "string \<Rightarrow> error + fileInfo list" where
  "ReadDir0 d = (if d = ''testdata'' then Inr listing0 else Inl (lib_error ''no such directory''))"

text \<open>
  \<open>a.gz\<close> decodes to \<open>hello\<close>, \<open>b.gz\<close> has a corrupt header, \<open>c.gz\<close> is truncated after
  \<open>he\<close>, and nothing else can be opened.
\<close>

definition env0 :: "(string, string) env" where
  "env0 =
     \<lparr>os_Open = (\<lambda>p. if p \<in> {''a.gz'', ''b.gz'', ''c.gz''} then Inr p
                      else Inl (lib_error ''no such file'')),
      gzip_NewReader = (\<lambda>f. if f = ''b.gz'' then Inl (lib_error ''gzip: invalid header'')
                             else Inr f),
      ioutil_ReadAll = (\<lambda>z. if z = ''a.gz'' then (''hello'', None)
                             else (''he'', Some (lib_error ''unexpected EOF'')))\<rparr>"

section \<open>The pipeline of funnel\<close>

definition width :: nat where
  "width = 16"

text \<open>
  The identifiers the feeder offers, in order: \<open>path.Join(fsi.dir, v.Name())\<close> for each
  \<open>v\<close> of \<open>fsi.fsi\<close>, with \<open>path.Join\<close> as a parameter.
\<close>

definition offered :: "(string \<Rightarrow> string \<Rightarrow> string) \<Rightarrow> filesInfo \<Rightarrow> string list" where
  "offered Join fi = map (\<lambda>v. Join (dir fi) (Name v)) (fsi fi)"

text \<open>
  The goroutines of \<open>funnel\<close> and where each one stands.

  The feeder (lines 142 to 152): \<open>FOffer k\<close> is the head of iteration \<open>k\<close> of the loop,
  before its \<open>select\<close> has looked at the channels (with \<open>k\<close> the number of items, the
  loop is over and \<open>close(paths)\<close> is next); \<open>FParked k\<close> is blocked inside that
  \<open>select\<close>, neither case being ready; \<open>FErr k\<close> has taken the \<open>done\<close> case and is at the
  send \<open>errc <- errors.New("canceled")\<close>; \<open>FExit\<close> has closed \<open>paths\<close>.

  A worker (lines 157 to 160 and \<open>digest\<close>): \<open>WRecv\<close> is at \<open>for p := range paths\<close>;
  \<open>WSend r\<close> has built \<open>r\<close> and has not yet run the \<open>select\<close> of line 123; \<open>WParked r\<close> is
  blocked inside that \<open>select\<close>; \<open>WRet\<close> has left \<open>digest\<close> and has \<open>wg.Done()\<close> ahead;
  \<open>WExit\<close> has called it.

  The tracker (lines 164 to 167): \<open>TWait\<close> is in \<open>wg.Wait()\<close>, \<open>TClose\<close> is at \<open>close(c)\<close>.
\<close>

datatype fstate = FOffer nat | FParked nat | FErr nat | FExit

datatype wstate = WRecv | WSend result | WParked result | WRet | WExit

datatype tstate = TWait | TClose | TExit

text \<open>
  The shared objects: the wait group counter, whether \<open>paths\<close>, \<open>c\<close> and \<open>done\<close> are
  closed, the buffer of \<open>errc\<close> (capacity 1), whether a goroutine has panicked, and
  the Results the consumer has received from \<open>c\<close> so far.
\<close>

record state =
  feeder :: fstate
  workers :: "wstate list"
  wg :: nat
  tracker :: tstate
  paths_closed :: bool
  c_closed :: bool
  errc :: "error list"
  done_closed :: bool
  panicked :: bool
  received :: "result list"

text \<open>
  The state once \<open>funnel\<close> has made its channels, \<open>wg.Add(width)\<close> has run and every
  goroutine stands at its first statement. (A goroutine that is started later behaves as
  one that is started and has not moved yet; \<open>wg.Add\<close> comes before the first worker.)
\<close>

definition funnel :: state where
  "funnel =
     \<lparr>feeder = FOffer 0, workers = replicate width WRecv, wg = width, tracker = TWait,
      paths_closed = False, c_closed = False, errc = [], done_closed = False,
      panicked = False, received = []\<rparr>"

text \<open>
  One event is one completed channel or wait group operation, or a goroutine blocking
  in a \<open>select\<close>. \<open>paths\<close> and \<open>c\<close> are unbuffered: a send completes together with a
  receive.
  \<^item> \<open>Offer j\<close>: the send case of the feeder's \<open>select\<close>, worker \<open>j\<close> receiving;
  \<^item> \<open>FeederPark\<close>: the feeder's \<open>select\<close> blocks, with no worker receiving and \<open>done\<close> open;
  \<^item> \<open>FeederDone\<close>: the feeder's \<open>select\<close> takes the \<open>done\<close> case;
  \<^item> \<open>FeederErr\<close>: the send to \<open>errc\<close> completes, the buffer having room;
  \<^item> \<open>FeederClose\<close>: \<open>close(paths)\<close>, after the loop;
  \<^item> \<open>WorkerEnd j\<close>: \<open>range paths\<close> ends for worker \<open>j\<close>, \<open>paths\<close> being closed;
  \<^item> \<open>Publish j\<close>: the send case of the \<open>select\<close> of worker \<open>j\<close>, the caller receiving;
  \<^item> \<open>WorkerPark j\<close>: that \<open>select\<close> blocks, with the caller not receiving and \<open>done\<close> open;
  \<^item> \<open>WorkerAbandon j\<close>: that \<open>select\<close> takes the \<open>done\<close> case, and \<open>digest\<close> returns;
  \<^item> \<open>WgDone j\<close>: \<open>wg.Done()\<close> of worker \<open>j\<close>;
  \<^item> \<open>TrackerWake\<close>: \<open>wg.Wait()\<close> returns; \<open>TrackerClose\<close>: \<open>close(c)\<close>;
  \<^item> \<open>Cancel\<close>: \<open>close(done)\<close>, by the caller; \<open>DrainErr\<close>: the caller receives from \<open>errc\<close>.

  When both cases of a \<open>select\<close> are ready either event can happen, as Go picks one of
  them at random.
\<close>

datatype event =
    Offer nat | FeederPark | FeederDone | FeederErr | FeederClose
  | WorkerEnd nat | Publish nat | WorkerPark nat | WorkerAbandon nat | WgDone nat
  | TrackerWake | TrackerClose
  | Cancel | DrainErr

definition panic :: "state \<Rightarrow> state option" where
  "panic s = Some (s\<lparr>panicked := True\<rparr>)"

text \<open>
  \<open>paths <- path.Join(...)\<close> meeting worker \<open>j\<close> at its receive: the worker runs the body
  of \<open>digest\<close> on the item and stands before its \<open>select\<close>. A send on a closed channel
  panics.
\<close>

definition send_path ::
  "(string \<Rightarrow> result) \<Rightarrow> string list \<Rightarrow> nat \<Rightarrow> nat \<Rightarrow> state \<Rightarrow> state option" where
  "send_path tr its j k s =
     (if k < length its \<and> j < length (workers s) \<and> workers s ! j = WRecv then
        (if paths_closed s then panic s
         else Some (s\<lparr>feeder := FOffer (Suc k),
                      workers := (workers s)[j := WSend (tr (its ! k))]\<rparr>))
      else None)"

text \<open>\<open>c <- r\<close> of worker \<open>j\<close> meeting the caller's receive; the worker goes back to its receive.\<close>

definition send_result :: "nat \<Rightarrow> result \<Rightarrow> state \<Rightarrow> state option" where
  "send_result j r s =
     (if c_closed s then panic s
      else Some (s\<lparr>received := received s @ [r], workers := (workers s)[j := WRecv]\<rparr>))"

text \<open>
  \<open>close(done)\<close> completes every \<open>select\<close> that is blocked with a \<open>done\<close> case: the
  goroutine is committed to that case from then on.
\<close>

fun wake_feeder :: "fstate \<Rightarrow> fstate" where
  "wake_feeder (FParked k) = FErr k"
| "wake_feeder f = f"

fun wake_worker :: "wstate \<Rightarrow> wstate" where
  "wake_worker (WParked r) = WRet"
| "wake_worker w = w"

text \<open>
  \<open>fire tr its ev s\<close> is the state after event \<open>ev\<close>, or \<open>None\<close> when \<open>ev\<close> cannot happen
  in \<open>s\<close> (the goroutine is elsewhere, or it is blocked). \<open>tr\<close> is the body of \<open>digest\<close>
  and \<open>its\<close> the identifiers to offer. Nothing runs after a panic.
\<close>

fun act :: "(string \<Rightarrow> result) \<Rightarrow> string list \<Rightarrow> event \<Rightarrow> state \<Rightarrow> state option" where
  "act tr its (Offer j) s =
     (case feeder s of
        FOffer k \<Rightarrow> send_path tr its j k s
      | FParked k \<Rightarrow> send_path tr its j k s
      | _ \<Rightarrow> None)"
| "act tr its FeederPark s =
     (case feeder s of
        FOffer k \<Rightarrow>
          if k < length its \<and> \<not> done_closed s then Some (s\<lparr>feeder := FParked k\<rparr>) else None
      | _ \<Rightarrow> None)"
| "act tr its FeederDone s =
     (case feeder s of
        FOffer k \<Rightarrow>
          if k < length its \<and> done_closed s then Some (s\<lparr>feeder := FErr k\<rparr>) else None
      | _ \<Rightarrow> None)"
| "act tr its FeederErr s =
     (case feeder s of
        FErr k \<Rightarrow>
          if length (errc s) < 1
          then Some (s\<lparr>errc := errc s @ [errors_New ''canceled''], feeder := FOffer (Suc k)\<rparr>)
          else None
      | _ \<Rightarrow> None)"
| "act tr its FeederClose s =
     (case feeder s of
        FOffer k \<Rightarrow>
          if k < length its then None
          else if paths_closed s then panic s
          else Some (s\<lparr>paths_closed := True, feeder := FExit\<rparr>)
      | _ \<Rightarrow> None)"
| "act tr its (WorkerEnd j) s =
     (if j < length (workers s) \<and> workers s ! j = WRecv \<and> paths_closed s
      then Some (s\<lparr>workers := (workers s)[j := WRet]\<rparr>)
      else None)"
| "act tr its (Publish j) s =
     (if j < length (workers s) then
        (case workers s ! j of
           WSend r \<Rightarrow> send_result j r s
         | WParked r \<Rightarrow> send_result j r s
         | _ \<Rightarrow> None)
      else None)"
| "act tr its (WorkerPark j) s =
     (if j < length (workers s) then
        (case workers s ! j of
           WSend r \<Rightarrow>
             if \<not> done_closed s then Some (s\<lparr>workers := (workers s)[j := WParked r]\<rparr>)
             else None
         | _ \<Rightarrow> None)
      else None)"
| "act tr its (WorkerAbandon j) s =
     (if j < length (workers s) then
        (case workers s ! j of
           WSend r \<Rightarrow>
             if done_closed s then Some (s\<lparr>workers := (workers s)[j := WRet]\<rparr>) else None
         | _ \<Rightarrow> None)
      else None)"
| "act tr its (WgDone j) s =
     (if j < length (workers s) \<and> workers s ! j = WRet then
        (if wg s = 0 then panic s
         else Some (s\<lparr>wg := wg s - 1, workers := (workers s)[j := WExit]\<rparr>))
      else None)"
| "act tr its TrackerWake s =
     (if tracker s = TWait \<and> wg s = 0 then Some (s\<lparr>tracker := TClose\<rparr>) else None)"
| "act tr its TrackerClose s =
     (if tracker s = TClose then
        (if c_closed s then panic s else Some (s\<lparr>c_closed := True, tracker := TExit\<rparr>))
      else None)"
| "act tr its Cancel s =
     (if done_closed s then None
      else Some (s\<lparr>done_closed := True, feeder := wake_feeder (feeder s),
                   workers := map wake_worker (workers s)\<rparr>))"
| "act tr its DrainErr s =
     (case errc s of [] \<Rightarrow> None | e # es \<Rightarrow> Some (s\<lparr>errc := es\<rparr>))"

definition fire :: "(string \<Rightarrow> result) \<Rightarrow> string list \<Rightarrow> event \<Rightarrow> state \<Rightarrow> state option" where
  "fire tr its ev s = (if panicked s then None else act tr its ev s)"

text \<open>An execution: the events one after the other, \<open>None\<close> when one of them cannot happen.\<close>

fun run :: "(string \<Rightarrow> result) \<Rightarrow> string list \<Rightarrow> event list \<Rightarrow> state \<Rightarrow> state option" where
  "run tr its [] s = Some s"
| "run tr its (ev # evs) s =
     (case fire tr its ev s of None \<Rightarrow> None | Some s' \<Rightarrow> run tr its evs s')"

text \<open>The events that can happen in a state.\<close>

definition all_events :: "nat \<Rightarrow> event list" where
  "all_events m =
     [FeederPark, FeederDone, FeederErr, FeederClose, TrackerWake, TrackerClose, Cancel, DrainErr]
     @ concat (map (\<lambda>j. [Offer j, WorkerEnd j, Publish j, WorkerPark j, WorkerAbandon j, WgDone j])
                   [0..<m])"

definition enabled :: "(string \<Rightarrow> result) \<Rightarrow> string list \<Rightarrow> state \<Rightarrow> event list" where
  "enabled tr its s =
     filter (\<lambda>ev. fire tr its ev s \<noteq> None) (all_events (length (workers s)))"

section \<open>Measures and invariants of the pipeline\<close>

text \<open>
  Every event makes this weight smaller, so an execution has at most as many events as
  the weight of the state it starts in: nothing in the pipeline runs forever.
\<close>

fun fweight :: "nat \<Rightarrow> fstate \<Rightarrow> nat" where
  "fweight n (FOffer k) = 4 * (n - k) + 3"
| "fweight n (FParked k) = 4 * (n - k) + 2"
| "fweight n (FErr k) = 4 * (n - k) + 1"
| "fweight n FExit = 0"

fun wweight :: "wstate \<Rightarrow> nat" where
  "wweight WExit = 0"
| "wweight WRet = 1"
| "wweight WRecv = 2"
| "wweight (WParked r) = 3"
| "wweight (WSend r) = 4"

fun tweight :: "tstate \<Rightarrow> nat" where
  "tweight TWait = 2"
| "tweight TClose = 1"
| "tweight TExit = 0"

definition weight :: "nat \<Rightarrow> state \<Rightarrow> nat" where
  "weight n s =
     fweight n (feeder s) + sum_list (map wweight (workers s)) + tweight (tracker s)
     + length (errc s) + (if done_closed s then 0 else 1) + (if panicked s then 0 else 1)"

text \<open>The Results that workers hold and have not sent, and the workers still counted by \<open>wg\<close>.\<close>

fun held :: "wstate \<Rightarrow> result multiset" where
  "held (WSend r) = {#r#}"
| "held (WParked r) = {#r#}"
| "held w = {#}"

definition inflight :: "wstate list \<Rightarrow> result multiset" where
  "inflight ws = sum_list (map held ws)"

fun live :: "wstate \<Rightarrow> nat" where
  "live WExit = 0"
| "live w = 1"

definition alive :: "wstate list \<Rightarrow> nat" where
  "alive ws = sum_list (map live ws)"

text \<open>The number of items the feeder is done with, and the range of its loop index.\<close>

fun fpos :: "nat \<Rightarrow> fstate \<Rightarrow> nat" where
  "fpos n (FOffer k) = k"
| "fpos n (FParked k) = k"
| "fpos n (FErr k) = k"
| "fpos n FExit = n"

fun fbound :: "nat \<Rightarrow> fstate \<Rightarrow> bool" where
  "fbound n (FOffer k) = (k \<le> n)"
| "fbound n (FParked k) = (k < n)"
| "fbound n (FErr k) = (k < n)"
| "fbound n FExit = True"

text \<open>
  What holds in every state of every execution: the wait group counts the workers that
  have not called \<open>wg.Done()\<close>; the tracker leaves \<open>wg.Wait()\<close> only at zero; \<open>c\<close> is
  closed exactly when the tracker is through and \<open>paths\<close> exactly when the feeder is;
  nothing has panicked; \<open>errc\<close> holds at most the one \<open>canceled\<close> error.
\<close>

definition wf :: "nat \<Rightarrow> state \<Rightarrow> bool" where
  "wf n s \<longleftrightarrow>
     length (workers s) = width \<and> wg s = alive (workers s) \<and>
     (tracker s = TWait \<or> wg s = 0) \<and> (c_closed s \<longleftrightarrow> tracker s = TExit) \<and>
     \<not> panicked s \<and> (paths_closed s \<longleftrightarrow> feeder s = FExit) \<and> fbound n (feeder s) \<and>
     length (errc s) \<le> 1 \<and> set (errc s) \<subseteq> {errors_New ''canceled''}"

text \<open>No worker has left \<open>digest\<close>.\<close>

definition staying :: "wstate list \<Rightarrow> bool" where
  "staying ws = list_all (\<lambda>w. w \<noteq> WRet \<and> w \<noteq> WExit) ws"

text \<open>
  What holds as long as \<open>done\<close> is open: \<open>errc\<close> is empty and the feeder is not about
  to write to it, the Results received and the Results held by workers are those of
  the items offered so far, and a worker has left \<open>digest\<close> only after \<open>paths\<close> was
  closed.
\<close>

fun in_err :: "fstate \<Rightarrow> bool" where
  "in_err (FErr k) = True"
| "in_err f = False"

definition tally :: "(string \<Rightarrow> result) \<Rightarrow> string list \<Rightarrow> state \<Rightarrow> bool" where
  "tally tr its s \<longleftrightarrow>
     done_closed s \<or>
     (errc s = [] \<and> \<not> in_err (feeder s) \<and>
      mset (received s) + inflight (workers s)
        = mset (map tr (take (fpos (length its) (feeder s)) its)) \<and>
      (paths_closed s \<or> staying (workers s)))"

text \<open>
  Every Result received or held by a worker is the Result of the body of \<open>digest\<close> on
  one of the identifiers.
\<close>

definition genuine :: "(string \<Rightarrow> result) \<Rightarrow> string list \<Rightarrow> state \<Rightarrow> bool" where
  "genuine tr its s \<longleftrightarrow>
     set (received s) \<union> set_mset (inflight (workers s)) \<subseteq> tr ` set its"

text \<open>
  With nothing to offer: nothing is received, \<open>errc\<close> stays empty, the feeder is at
  \<open>close(paths)\<close> or through, and a worker is at its receive unless \<open>paths\<close> is closed,
  after which it may have left \<open>digest\<close> by the end of the \<open>range\<close> loop.
\<close>

definition idle :: "state \<Rightarrow> bool" where
  "idle s \<longleftrightarrow>
     received s = [] \<and> errc s = [] \<and> (feeder s = FOffer 0 \<or> feeder s = FExit) \<and>
     list_all (\<lambda>w. w = WRecv \<or> paths_closed s \<and> (w = WRet \<or> w = WExit)) (workers s)"

text \<open>A worker that has left \<open>digest\<close>.\<close>

fun gone :: "wstate \<Rightarrow> bool" where
  "gone WRet = True"
| "gone WExit = True"
| "gone w = False"

text \<open>The number of times \<open>c\<close> has been closed.\<close>

definition closed_count :: "state \<Rightarrow> nat" where
  "closed_count s = (if c_closed s then 1 else 0)"

section \<open>Executions to run the pipeline on\<close>

text \<open>
  \<open>path.Join\<close> on a directory and a file name without separators or dots: an empty
  directory is ignored, otherwise the two are joined by a slash.
\<close>

definition Join0 :: "string \<Rightarrow> string \<Rightarrow> string" where
  "Join0 d n = (if d = [] then n else d @ ''/'' @ n)"

text \<open>
  Two files and no cancellation: both are handed out, worker 1 publishes first, all the
  workers leave by the end of \<open>range paths\<close>, and the tracker closes \<open>c\<close>.
\<close>

definition fi0 :: filesInfo where
  "fi0 = \<lparr>dir = [], fsi = [\<lparr>Name = ''a.gz'', IsDir = False\<rparr>, \<lparr>Name = ''b.gz'', IsDir = False\<rparr>]\<rparr>"

definition its0 :: "string list" where
  "its0 = [''a.gz'', ''b.gz'']"

definition schedule0 :: "event list" where
  "schedule0 =
     [Offer 0, FeederPark, Offer 1, FeederClose, WorkerPark 1, Publish 1, Publish 0]
     @ map WorkerEnd [0..<16] @ map WgDone [0..<16] @ [TrackerWake, TrackerClose]"

definition final0 :: state where
  "final0 =
     \<lparr>feeder = FExit, workers = replicate 16 WExit, wg = 0, tracker = TExit,
      paths_closed = True, c_closed = True, errc = [], done_closed = False,
      panicked = False,
      received = [\<lparr>path = ''b.gz'', data = [], err = Some (lib_error ''gzip: invalid header'')\<rparr>,
                  \<lparr>path = ''a.gz'', data = ''hello'', err = None\<rparr>]\<rparr>"

text \<open>No file, and \<open>done\<close> closed at the start.\<close>

definition fi1 :: filesInfo where
  "fi1 = \<lparr>dir = ''testdata'', fsi = []\<rparr>"

definition schedule1 :: "event list" where
  "schedule1 =
     Cancel # FeederClose # map WorkerEnd [0..<16] @ map WgDone [0..<16] @ [TrackerWake, TrackerClose]"

definition final1 :: state where
  "final1 =
     \<lparr>feeder = FExit, workers = replicate 16 WExit, wg = 0, tracker = TExit,
      paths_closed = True, c_closed = True, errc = [], done_closed = True,
      panicked = False, received = []\<rparr>"

text \<open>
  Worker 0 blocked in its \<open>select\<close> with the Result of \<open>a.gz\<close>; the same after
  \<open>close(done)\<close>; and after the feeder has taken the \<open>done\<close> case for \<open>b.gz\<close> and worker 0
  has called \<open>wg.Done()\<close>.
\<close>

definition parked0 :: state where
  "parked0 =
     funnel\<lparr>feeder := FOffer 1,
            workers := (workers funnel)[0 := WParked (digest_body env0 ''a.gz'')]\<rparr>"

definition woken0 :: state where
  "woken0 = parked0\<lparr>done_closed := True, workers := (workers funnel)[0 := WRet]\<rparr>"

definition later0 :: state where
  "later0 =
     woken0\<lparr>feeder := FOffer 2, errc := [errors_New ''canceled''], wg := 15,
             workers := (workers funnel)[0 := WExit]\<rparr>"


definition stuck0 :: state where
  "stuck0 = funnel\<lparr>done_closed := True, feeder := FErr 1, errc := [errors_New ''canceled'']\<rparr>"

definition resumed0 :: state where
  "resumed0 =
     funnel\<lparr>done_closed := True, feeder := FOffer 2, errc := [errors_New ''canceled''],
            workers := (workers funnel)[0 := WSend (digest_body env0 ''b.gz'')]\<rparr>"

text \<open>
  Three files, \<open>done\<close> closed after the first was handed out: worker 0 has left and the
  feeder is at its second write to \<open>errc\<close>.
\<close>

definition its3 :: "string list" where
  "its3 = [''a.gz'', ''b.gz'', ''c.gz'']"

definition stalled0 :: state where
  "stalled0 =
     funnel\<lparr>done_closed := True, feeder := FErr 2, errc := [errors_New ''canceled''],
            wg := 15, workers := (workers funnel)[0 := WExit]\<rparr>"

section \<open>gzFilesInfoIn keeps the gzipped files, in order\<close>

lemma HasSuffix_suffix: "HasSuffix s x \<longleftrightarrow> suffix x s"
proof
  assume "HasSuffix s x"
  then have "s = take (length s - length x) s @ x"
    by (metis HasSuffix_def append_take_drop_id)
  then show "suffix x s"
    by (metis suffixI)
next
  assume "suffix x s"
  then obtain p where "s = p @ x"
    by (auto simp: suffix_def)
  then show "HasSuffix s x"
    by (simp add: HasSuffix_def)
qed

lemma prune_filter:
  "k \<le> length fs \<Longrightarrow> prune k fs = Some (filter keeps (take k fs) @ drop k fs)"
proof (induction k arbitrary: fs)
  case 0
  then show ?case by simp
next
  case (Suc k)
  then have k: "k < length fs" by simp
  have split: "take (Suc k) fs = take k fs @ [fs ! k]"
    using k by (simp add: take_Suc_conv_app_nth)
  have rest: "drop k fs = fs ! k # drop (Suc k) fs"
    using k by (simp add: Cons_nth_drop_Suc)
  show ?case
  proof (cases "keeps (fs ! k)")
    case True
    then have "prune (Suc k) fs = prune k fs"
      using k by (simp add: keeps_def HasSuffix_suffix)
    also have "\<dots> = Some (filter keeps (take k fs) @ drop k fs)"
      using Suc.IH [of fs] k by simp
    finally show ?thesis
      using True by (simp add: split rest)
  next
    case False
    let ?gs = "take k fs @ drop (Suc k) fs"
    have len: "k \<le> length ?gs" using k by simp
    have "prune (Suc k) fs = prune k ?gs"
      using k False by (simp add: keeps_def HasSuffix_suffix)
    also have "\<dots> = Some (filter keeps (take k ?gs) @ drop k ?gs)"
      using Suc.IH [OF len] .
    also have "take k ?gs = take k fs"
      using k by simp
    also have "drop k ?gs = drop (Suc k) fs"
      using k by simp
    finally show ?thesis
      using False by (simp add: split)
  qed
qed

text \<open>
  C10: when the listing is read, \<open>gzFilesInfoIn\<close> returns (without a panic) the directory
  argument and exactly the entries that are not directories and whose names end in
  \<open>.gz\<close>, in listing order; when the listing fails it returns the error and no filesInfo.
\<close>

theorem gzFilesInfoIn_filters:
  "(ReadDir d = Inr l \<longrightarrow>
      gzFilesInfoIn ReadDir d =
        Some (Inr \<lparr>dir = d, fsi = filter (\<lambda>f. \<not> IsDir f \<and> suffix ''.gz'' (Name f)) l\<rparr>)) \<and>
   (ReadDir d = Inl e \<longrightarrow> gzFilesInfoIn ReadDir d = Some (Inl e))"
proof -
  have "prune (length l) l = Some (filter keeps l)"
    using prune_filter [of "length l" l] by simp
  moreover have "keeps = (\<lambda>f. \<not> IsDir f \<and> suffix ''.gz'' (Name f))"
    by (simp add: keeps_def fun_eq_iff)
  ultimately show ?thesis
    by (simp add: gzFilesInfoIn_def)
qed

theorem gzFilesInfoIn_filters_witness:
  "ReadDir0 ''testdata'' = Inr listing0 \<and>
   gzFilesInfoIn ReadDir0 ''testdata'' =
     Some (Inr \<lparr>dir = ''testdata'',
                fsi = [\<lparr>Name = ''a.gz'', IsDir = False\<rparr>, \<lparr>Name = ''b.gz'', IsDir = False\<rparr>]\<rparr>) \<and>
   ReadDir0 ''nowhere'' = Inl (lib_error ''no such directory'') \<and>
   gzFilesInfoIn ReadDir0 ''nowhere'' = Some (Inl (lib_error ''no such directory''))"
proof -
  have a: "ReadDir0 ''testdata'' = Inr listing0"
    by (simp add: ReadDir0_def)
  have b: "ReadDir0 ''nowhere'' = Inl (lib_error ''no such directory'')"
    by (simp add: ReadDir0_def)
  have c: "filter (\<lambda>f. \<not> IsDir f \<and> suffix ''.gz'' (Name f)) listing0 =
             [\<lparr>Name = ''a.gz'', IsDir = False\<rparr>, \<lparr>Name = ''b.gz'', IsDir = False\<rparr>]"
    by (simp add: listing0_def suffix_def)
  show ?thesis
    using gzFilesInfoIn_filters [of ReadDir0 "''testdata''" listing0]
      gzFilesInfoIn_filters [of ReadDir0 "''nowhere''" _ "lib_error ''no such directory''"]
      a b c by simp
qed

section \<open>The per-item body captures every failure\<close>

text \<open>
  C8: for every path the body of \<open>digest\<close> returns a Result (the function is total: no
  failure leaves it other than through the Result) whose path is the input path; an
  open failure, a gzip header failure and a read failure each end up in the error
  field; and whenever the error field is set the data field is the empty string.
\<close>

theorem digest_body_captures:
  "path (digest_body env p) = p \<and>
   (err (digest_body env p) \<noteq> None \<longrightarrow> data (digest_body env p) = []) \<and>
   (os_Open env p = Inl e \<longrightarrow> err (digest_body env p) = Some e) \<and>
   (os_Open env p = Inr f \<and> gzip_NewReader env f = Inl e \<longrightarrow>
      err (digest_body env p) = Some e) \<and>
   (os_Open env p = Inr f \<and> gzip_NewReader env f = Inr z \<and> ioutil_ReadAll env z = (d, Some e) \<longrightarrow>
      err (digest_body env p) = Some e) \<and>
   (os_Open env p = Inr f \<and> gzip_NewReader env f = Inr z \<and> ioutil_ReadAll env z = (d, None) \<longrightarrow>
      digest_body env p = \<lparr>path = p, data = d, err = None\<rparr>)"
  by (auto simp: digest_body_def Let_def split: sum.splits prod.splits option.splits)

theorem digest_body_captures_witness:
  "os_Open env0 ''nope'' = Inl (lib_error ''no such file'') \<and>
   err (digest_body env0 ''nope'') = Some (lib_error ''no such file'') \<and>
   data (digest_body env0 ''nope'') = [] \<and>
   path (digest_body env0 ''nope'') = ''nope'' \<and>
   os_Open env0 ''b.gz'' = Inr ''b.gz'' \<and>
   gzip_NewReader env0 ''b.gz'' = Inl (lib_error ''gzip: invalid header'') \<and>
   err (digest_body env0 ''b.gz'') = Some (lib_error ''gzip: invalid header'') \<and>
   data (digest_body env0 ''b.gz'') = [] \<and>
   os_Open env0 ''c.gz'' = Inr ''c.gz'' \<and>
   gzip_NewReader env0 ''c.gz'' = Inr ''c.gz'' \<and>
   ioutil_ReadAll env0 ''c.gz'' = (''he'', Some (lib_error ''unexpected EOF'')) \<and>
   err (digest_body env0 ''c.gz'') = Some (lib_error ''unexpected EOF'') \<and>
   data (digest_body env0 ''c.gz'') = [] \<and>
   os_Open env0 ''a.gz'' = Inr ''a.gz'' \<and>
   gzip_NewReader env0 ''a.gz'' = Inr ''a.gz'' \<and>
   ioutil_ReadAll env0 ''a.gz'' = (''hello'', None) \<and>
   digest_body env0 ''a.gz'' = \<lparr>path = ''a.gz'', data = ''hello'', err = None\<rparr>"
proof -
  have n: "os_Open env0 ''nope'' = Inl (lib_error ''no such file'')"
    by (simp add: env0_def)
  have b: "os_Open env0 ''b.gz'' = Inr ''b.gz''"
    "gzip_NewReader env0 ''b.gz'' = Inl (lib_error ''gzip: invalid header'')"
    by (simp_all add: env0_def)
  have c: "os_Open env0 ''c.gz'' = Inr ''c.gz''" "gzip_NewReader env0 ''c.gz'' = Inr ''c.gz''"
    "ioutil_ReadAll env0 ''c.gz'' = (''he'', Some (lib_error ''unexpected EOF''))"
    by (simp_all add: env0_def)
  have a: "os_Open env0 ''a.gz'' = Inr ''a.gz''" "gzip_NewReader env0 ''a.gz'' = Inr ''a.gz''"
    "ioutil_ReadAll env0 ''a.gz'' = (''hello'', None)"
    by (simp_all add: env0_def)
  show ?thesis
    using n b c a
      digest_body_captures [of env0 "''nope''" "lib_error ''no such file''"]
      digest_body_captures [of env0 "''b.gz''" "lib_error ''gzip: invalid header''" "''b.gz''"]
      digest_body_captures [of env0 "''c.gz''" "lib_error ''unexpected EOF''" "''c.gz''"
        "''c.gz''" "''he''"]
      digest_body_captures [of env0 "''a.gz''" _ "''a.gz''" "''a.gz''" "''hello''"]
    by simp
qed

section \<open>Events of the pipeline, one by one\<close>

lemma sum_list_map_update:
  fixes f :: "'a \<Rightarrow> 'b::comm_monoid_add"
  shows "j < length ws \<Longrightarrow>
    sum_list (map f (ws[j := w])) + f (ws ! j) = sum_list (map f ws) + f w"
proof (induction ws arbitrary: j)
  case Nil
  then show ?case by simp
next
  case (Cons a ws)
  show ?case
  proof (cases j)
    case 0
    then show ?thesis by (simp add: ac_simps)
  next
    case (Suc i)
    then have "i < length ws" using Cons.prems by simp
    from Cons.IH [OF this] show ?thesis
      using Suc by (simp add: ac_simps)
  qed
qed

lemma wweight_update:
  "j < length ws \<Longrightarrow>
     sum_list (map wweight (ws[j := w])) + wweight (ws ! j) = sum_list (map wweight ws) + wweight w"
  by (rule sum_list_map_update)

lemma alive_update:
  "j < length ws \<Longrightarrow> alive (ws[j := w]) + live (ws ! j) = alive ws + live w"
  unfolding alive_def by (rule sum_list_map_update)

lemma inflight_update:
  "j < length ws \<Longrightarrow> inflight (ws[j := w]) + held (ws ! j) = inflight ws + held w"
  unfolding inflight_def by (rule sum_list_map_update)

lemma wweight_wake: "wweight (wake_worker w) \<le> wweight w"
  by (cases w) simp_all

lemma wweight_map_wake:
  "sum_list (map wweight (map wake_worker ws)) \<le> sum_list (map wweight ws)"
  by (induction ws) (simp_all add: add_mono wweight_wake)

lemma fweight_wake: "fweight n (wake_feeder f) \<le> fweight n f"
  by (cases f) simp_all

lemma alive_map_wake: "alive (map wake_worker ws) = alive ws"
proof -
  have "live (wake_worker w) = live w" for w by (cases w) simp_all
  then show ?thesis by (simp add: alive_def comp_def)
qed

lemma alive_zero_iff: "alive ws = 0 \<longleftrightarrow> (\<forall>j < length ws. ws ! j = WExit)"
proof -
  have "live w = 0 \<longleftrightarrow> w = WExit" for w by (cases w) simp_all
  then show ?thesis
    by (simp add: alive_def all_set_conv_all_nth)
qed

lemma wweight_nth_le: "j < length ws \<Longrightarrow> wweight (ws ! j) \<le> sum_list (map wweight ws)"
proof -
  assume "j < length ws"
  then have "wweight (ws ! j) \<in> set (map wweight ws)" by simp
  then show ?thesis by (simp add: member_le_sum_list)
qed

lemma wweight_update_diff:
  "j < length ws \<Longrightarrow>
     sum_list (map wweight (ws[j := w])) = sum_list (map wweight ws) + wweight w - wweight (ws ! j)"
  using wweight_update [of j ws w] by simp






subsection \<open>What each event requires and does\<close>

lemma fire_Offer:
  "fire tr its (Offer j) s = Some s' \<longleftrightarrow>
     (\<exists>k. \<not> panicked s \<and> (feeder s = FOffer k \<or> feeder s = FParked k) \<and>
     k < length its \<and> j < length (workers s) \<and> workers s ! j = WRecv \<and>
     (paths_closed s \<and> s' = s\<lparr>panicked := True\<rparr> \<or>
      \<not> paths_closed s \<and>
      s' = s\<lparr>feeder := FOffer (Suc k), workers := (workers s)[j := WSend (tr (its ! k))]\<rparr>))"
  by (cases "feeder s") (auto simp: fire_def send_path_def panic_def)

lemma fire_FeederPark:
  "fire tr its FeederPark s = Some s' \<longleftrightarrow>
     (\<exists>k. \<not> panicked s \<and> feeder s = FOffer k \<and> k < length its \<and> \<not> done_closed s \<and>
          s' = s\<lparr>feeder := FParked k\<rparr>)"
  by (cases "feeder s") (auto simp: fire_def)

lemma fire_FeederDone:
  "fire tr its FeederDone s = Some s' \<longleftrightarrow>
     (\<exists>k. \<not> panicked s \<and> feeder s = FOffer k \<and> k < length its \<and> done_closed s \<and>
          s' = s\<lparr>feeder := FErr k\<rparr>)"
  by (cases "feeder s") (auto simp: fire_def)

lemma fire_FeederErr:
  "fire tr its FeederErr s = Some s' \<longleftrightarrow>
     (\<exists>k. \<not> panicked s \<and> feeder s = FErr k \<and> errc s = [] \<and>
          s' = s\<lparr>errc := [errors_New ''canceled''], feeder := FOffer (Suc k)\<rparr>)"
  by (cases "feeder s") (auto simp: fire_def)

lemma fire_FeederClose:
  "fire tr its FeederClose s = Some s' \<longleftrightarrow>
     (\<exists>k. \<not> panicked s \<and> feeder s = FOffer k \<and> \<not> k < length its \<and>
          (paths_closed s \<and> s' = s\<lparr>panicked := True\<rparr> \<or>
           \<not> paths_closed s \<and> s' = s\<lparr>paths_closed := True, feeder := FExit\<rparr>))"
  by (cases "feeder s") (auto simp: fire_def panic_def)

lemma fire_WorkerEnd:
  "fire tr its (WorkerEnd j) s = Some s' \<longleftrightarrow>
     \<not> panicked s \<and> j < length (workers s) \<and> workers s ! j = WRecv \<and> paths_closed s \<and>
     s' = s\<lparr>workers := (workers s)[j := WRet]\<rparr>"
  by (auto simp: fire_def)

lemma fire_Publish:
  "fire tr its (Publish j) s = Some s' \<longleftrightarrow>
     (\<exists>r. \<not> panicked s \<and> j < length (workers s) \<and>
          (workers s ! j = WSend r \<or> workers s ! j = WParked r) \<and>
          (c_closed s \<and> s' = s\<lparr>panicked := True\<rparr> \<or>
           \<not> c_closed s \<and>
           s' = s\<lparr>received := received s @ [r], workers := (workers s)[j := WRecv]\<rparr>))"
  by (cases "workers s ! j") (auto simp: fire_def send_result_def panic_def)

lemma fire_WorkerPark:
  "fire tr its (WorkerPark j) s = Some s' \<longleftrightarrow>
     (\<exists>r. \<not> panicked s \<and> j < length (workers s) \<and> workers s ! j = WSend r \<and>
          \<not> done_closed s \<and> s' = s\<lparr>workers := (workers s)[j := WParked r]\<rparr>)"
  by (cases "workers s ! j") (auto simp: fire_def)

lemma fire_WorkerAbandon:
  "fire tr its (WorkerAbandon j) s = Some s' \<longleftrightarrow>
     (\<exists>r. \<not> panicked s \<and> j < length (workers s) \<and> workers s ! j = WSend r \<and>
          done_closed s \<and> s' = s\<lparr>workers := (workers s)[j := WRet]\<rparr>)"
  by (cases "workers s ! j") (auto simp: fire_def)

lemma fire_WgDone:
  "fire tr its (WgDone j) s = Some s' \<longleftrightarrow>
     \<not> panicked s \<and> j < length (workers s) \<and> workers s ! j = WRet \<and>
     (wg s = 0 \<and> s' = s\<lparr>panicked := True\<rparr> \<or>
      wg s \<noteq> 0 \<and> s' = s\<lparr>wg := wg s - 1, workers := (workers s)[j := WExit]\<rparr>)"
  by (auto simp: fire_def panic_def)

lemma fire_TrackerWake:
  "fire tr its TrackerWake s = Some s' \<longleftrightarrow>
     \<not> panicked s \<and> tracker s = TWait \<and> wg s = 0 \<and> s' = s\<lparr>tracker := TClose\<rparr>"
  by (auto simp: fire_def)

lemma fire_TrackerClose:
  "fire tr its TrackerClose s = Some s' \<longleftrightarrow>
     \<not> panicked s \<and> tracker s = TClose \<and>
     (c_closed s \<and> s' = s\<lparr>panicked := True\<rparr> \<or>
      \<not> c_closed s \<and> s' = s\<lparr>c_closed := True, tracker := TExit\<rparr>)"
  by (auto simp: fire_def panic_def)

lemma fire_Cancel:
  "fire tr its Cancel s = Some s' \<longleftrightarrow>
     \<not> panicked s \<and> \<not> done_closed s \<and>
     s' = s\<lparr>done_closed := True, feeder := wake_feeder (feeder s),
            workers := map wake_worker (workers s)\<rparr>"
  by (auto simp: fire_def)

lemma fire_DrainErr:
  "fire tr its DrainErr s = Some s' \<longleftrightarrow>
     (\<exists>e es. \<not> panicked s \<and> errc s = e # es \<and> s' = s\<lparr>errc := es\<rparr>)"
  by (cases "errc s") (auto simp: fire_def)

lemmas fire_iff =
  fire_Offer fire_FeederPark fire_FeederDone fire_FeederErr fire_FeederClose fire_WorkerEnd
  fire_Publish fire_WorkerPark fire_WorkerAbandon fire_WgDone fire_TrackerWake
  fire_TrackerClose fire_Cancel fire_DrainErr

subsection \<open>The invariants are kept by every event\<close>

lemma live_nth_le: "j < length ws \<Longrightarrow> live (ws ! j) \<le> alive ws"
proof -
  assume "j < length ws"
  then have "live (ws ! j) \<in> set (map live ws)" by simp
  then show ?thesis by (simp add: alive_def member_le_sum_list)
qed

lemma alive_update_same:
  "j < length ws \<Longrightarrow> live w = live (ws ! j) \<Longrightarrow> alive (ws[j := w]) = alive ws"
  using alive_update [of j ws w] by simp

lemma alive_update_exit:
  "j < length ws \<Longrightarrow> ws ! j = WRet \<Longrightarrow> alive ws = Suc (alive (ws[j := WExit]))"
  using alive_update [of j ws WExit] by simp

lemma fbound_wake: "fbound n (wake_feeder f) = fbound n f"
  by (cases f) simp_all

lemma wake_feeder_exit: "wake_feeder f = FExit \<longleftrightarrow> f = FExit"
  by (cases f) simp_all

lemma wf_fire:
  assumes "fire tr its ev s = Some s'" and "wf (length its) s"
  shows "wf (length its) s'"
proof (cases ev)
  case (Offer j)
  with assms show ?thesis
    by (auto simp: fire_Offer wf_def alive_update_same)
next
  case FeederPark
  with assms show ?thesis by (auto simp: fire_FeederPark wf_def)
next
  case FeederDone
  with assms show ?thesis by (auto simp: fire_FeederDone wf_def)
next
  case FeederErr
  with assms show ?thesis by (auto simp: fire_FeederErr wf_def)
next
  case FeederClose
  with assms show ?thesis by (auto simp: fire_FeederClose wf_def)
next
  case (WorkerEnd j)
  with assms show ?thesis by (auto simp: fire_WorkerEnd wf_def alive_update_same)
next
  case (Publish j)
  with assms show ?thesis
    using live_nth_le [of j "workers s"]
    by (auto simp: fire_Publish wf_def alive_update_same)
next
  case (WorkerPark j)
  with assms show ?thesis by (auto simp: fire_WorkerPark wf_def alive_update_same)
next
  case (WorkerAbandon j)
  with assms show ?thesis by (auto simp: fire_WorkerAbandon wf_def alive_update_same)
next
  case (WgDone j)
  with assms show ?thesis
    using live_nth_le [of j "workers s"] alive_update_exit [of j "workers s"]
    by (auto simp: fire_WgDone wf_def)
next
  case TrackerWake
  with assms show ?thesis by (auto simp: fire_TrackerWake wf_def)
next
  case TrackerClose
  with assms show ?thesis by (auto simp: fire_TrackerClose wf_def)
next
  case Cancel
  with assms show ?thesis
    by (auto simp: fire_Cancel wf_def alive_map_wake fbound_wake wake_feeder_exit)
next
  case DrainErr
  with assms show ?thesis by (auto simp: fire_DrainErr wf_def)
qed

lemma fire_weight:
  assumes "fire tr its ev s = Some s'" and "fbound (length its) (feeder s)"
  shows "weight (length its) s' < weight (length its) s"
proof (cases ev)
  case (Offer j)
  with assms show ?thesis
    using wweight_nth_le [of j "workers s"]
    by (auto simp: fire_Offer weight_def wweight_update_diff)
next
  case FeederPark
  with assms show ?thesis by (auto simp: fire_FeederPark weight_def)
next
  case FeederDone
  with assms show ?thesis by (auto simp: fire_FeederDone weight_def)
next
  case FeederErr
  with assms show ?thesis by (auto simp: fire_FeederErr weight_def)
next
  case FeederClose
  with assms show ?thesis by (auto simp: fire_FeederClose weight_def)
next
  case (WorkerEnd j)
  with assms show ?thesis
    using wweight_nth_le [of j "workers s"]
    by (auto simp: fire_WorkerEnd weight_def wweight_update_diff)
next
  case (Publish j)
  with assms show ?thesis
    using wweight_nth_le [of j "workers s"]
    by (auto simp: fire_Publish weight_def wweight_update_diff)
next
  case (WorkerPark j)
  with assms show ?thesis
    using wweight_nth_le [of j "workers s"]
    by (auto simp: fire_WorkerPark weight_def wweight_update_diff)
next
  case (WorkerAbandon j)
  with assms show ?thesis
    using wweight_nth_le [of j "workers s"]
    by (auto simp: fire_WorkerAbandon weight_def wweight_update_diff)
next
  case (WgDone j)
  with assms show ?thesis
    using wweight_nth_le [of j "workers s"]
    by (auto simp: fire_WgDone weight_def wweight_update_diff)
next
  case TrackerWake
  with assms show ?thesis by (auto simp: fire_TrackerWake weight_def)
next
  case TrackerClose
  with assms show ?thesis by (auto simp: fire_TrackerClose weight_def)
next
  case Cancel
  with assms show ?thesis
    using wweight_map_wake [of "workers s"] fweight_wake [of "length its" "feeder s"]
    by (auto simp: fire_Cancel weight_def)
next
  case DrainErr
  with assms show ?thesis by (auto simp: fire_DrainErr weight_def)
qed

lemma inflight_update_same:
  "j < length ws \<Longrightarrow> held w = held (ws ! j) \<Longrightarrow> inflight (ws[j := w]) = inflight ws"
  using inflight_update [of j ws w] by simp

lemma inflight_update_take:
  "j < length ws \<Longrightarrow> held (ws ! j) = {#} \<Longrightarrow> inflight (ws[j := w]) = inflight ws + held w"
  using inflight_update [of j ws w] by simp

lemma inflight_update_give:
  "j < length ws \<Longrightarrow> held (ws ! j) = {#r#} \<Longrightarrow> held w = {#} \<Longrightarrow>
     inflight ws = inflight (ws[j := w]) + {#r#}"
  using inflight_update [of j ws w] by simp

lemma staying_update:
  "staying ws \<Longrightarrow> w \<noteq> WRet \<Longrightarrow> w \<noteq> WExit \<Longrightarrow> staying (ws[j := w])"
  unfolding staying_def list_all_iff
  using set_update_subset_insert [of ws j w] by blast

lemma staying_nth: "staying ws \<Longrightarrow> j < length ws \<Longrightarrow> ws ! j \<noteq> WRet \<and> ws ! j \<noteq> WExit"
  unfolding staying_def list_all_iff by simp

lemma wf_fbound: "wf n s \<Longrightarrow> fbound n (feeder s)"
  by (simp add: wf_def)

lemma wf_paths: "wf n s \<Longrightarrow> paths_closed s \<longleftrightarrow> feeder s = FExit"
  by (simp add: wf_def)

lemma tally_fire:
  assumes f: "fire tr its ev s = Some s'" and w: "wf (length its) s" and t: "tally tr its s"
  shows "tally tr its s'"
proof (cases "done_closed s")
  case True
  then have "done_closed s'"
    using f by (cases ev) (auto simp: fire_iff)
  then show ?thesis by (simp add: tally_def)
next
  case nd: False
  with t have e: "errc s = []" and ne: "\<not> in_err (feeder s)"
    and m: "mset (received s) + inflight (workers s)
        = mset (map tr (take (fpos (length its) (feeder s)) its))"
    and st: "paths_closed s \<or> staying (workers s)"
    by (simp_all add: tally_def)
  note pc = wf_paths [OF w]
  note fb = wf_fbound [OF w]
  show ?thesis
  proof (cases ev)
    case (Offer j)
    with f pc obtain k where k: "feeder s = FOffer k \<or> feeder s = FParked k" "k < length its"
      and j: "j < length (workers s)" "workers s ! j = WRecv"
      and s': "s' = s\<lparr>feeder := FOffer (Suc k), workers := (workers s)[j := WSend (tr (its ! k))]\<rparr>"
      by (auto simp: fire_Offer)
    have "fpos (length its) (feeder s) = k" using k by auto
    with m have "mset (received s) + inflight ((workers s)[j := WSend (tr (its ! k))])
        = mset (map tr (take (Suc k) its))"
      using j k by (simp add: inflight_update_take take_Suc_conv_app_nth)
    moreover have "staying ((workers s)[j := WSend (tr (its ! k))])"
      using st pc k by (auto intro: staying_update)
    ultimately show ?thesis
      using e s' by (simp add: tally_def)
  next
    case FeederPark
    with f e ne m st show ?thesis by (auto simp: fire_FeederPark tally_def)
  next
    case FeederDone
    with f show ?thesis by (auto simp: fire_FeederDone tally_def)
  next
    case FeederErr
    with f ne show ?thesis by (auto simp: fire_FeederErr)
  next
    case FeederClose
    with f e ne m st fb show ?thesis by (auto simp: fire_FeederClose tally_def)
  next
    case (WorkerEnd j)
    with f e ne m st show ?thesis
      by (auto simp: fire_WorkerEnd tally_def inflight_update_same)
  next
    case (Publish j)
    with f obtain r where j: "j < length (workers s)"
      and r: "workers s ! j = WSend r \<or> workers s ! j = WParked r"
      and s': "c_closed s \<and> s' = s\<lparr>panicked := True\<rparr> \<or> \<not> c_closed s \<and>
         s' = s\<lparr>received := received s @ [r], workers := (workers s)[j := WRecv]\<rparr>"
      by (auto simp: fire_Publish)
    have h: "held (workers s ! j) = {#r#}" using r by auto
    have "inflight (workers s) = inflight ((workers s)[j := WRecv]) + {#r#}"
      using inflight_update_give [OF j h, of WRecv] by simp
    with m have "mset (received s @ [r]) + inflight ((workers s)[j := WRecv])
        = mset (map tr (take (fpos (length its) (feeder s)) its))"
      by simp
    moreover have "paths_closed s \<or> staying ((workers s)[j := WRecv])"
      using st by (auto intro: staying_update)
    ultimately show ?thesis
      using e ne m st s' by (auto simp: tally_def)
  next
    case (WorkerPark j)
    with f obtain r where j: "j < length (workers s)" and r: "workers s ! j = WSend r"
      and s': "s' = s\<lparr>workers := (workers s)[j := WParked r]\<rparr>"
      by (auto simp: fire_WorkerPark)
    have "inflight ((workers s)[j := WParked r]) = inflight (workers s)"
      using j r by (simp add: inflight_update_same)
    moreover have "paths_closed s \<or> staying ((workers s)[j := WParked r])"
      using st by (auto intro: staying_update)
    ultimately show ?thesis
      using e ne m s' by (simp add: tally_def)
  next
    case (WorkerAbandon j)
    with f nd show ?thesis by (auto simp: fire_WorkerAbandon)
  next
    case (WgDone j)
    with f have j: "j < length (workers s)" "workers s ! j = WRet"
      and s': "wg s = 0 \<and> s' = s\<lparr>panicked := True\<rparr> \<or>
        wg s \<noteq> 0 \<and> s' = s\<lparr>wg := wg s - 1, workers := (workers s)[j := WExit]\<rparr>"
      by (auto simp: fire_WgDone)
    have "paths_closed s" using st staying_nth [of "workers s" j] j by auto
    moreover have "inflight ((workers s)[j := WExit]) = inflight (workers s)"
      using j by (simp add: inflight_update_same)
    ultimately show ?thesis
      using e ne m s' by (auto simp: tally_def)
  next
    case TrackerWake
    with f e ne m st show ?thesis by (auto simp: fire_TrackerWake tally_def)
  next
    case TrackerClose
    with f e ne m st show ?thesis by (auto simp: fire_TrackerClose tally_def)
  next
    case Cancel
    with f show ?thesis by (auto simp: fire_Cancel tally_def)
  next
    case DrainErr
    with f e show ?thesis by (auto simp: fire_DrainErr)
  qed
qed

section \<open>Along every execution\<close>

lemma alive_replicate: "alive (replicate n WRecv) = n"
  by (simp add: alive_def sum_list_replicate)

lemma wf_funnel: "wf n funnel"
  by (simp add: wf_def funnel_def alive_replicate)

lemma inflight_replicate: "inflight (replicate n WRecv) = {#}"
  by (induction n) (simp_all add: inflight_def)

lemma tally_funnel: "tally tr its funnel"
  by (simp add: tally_def funnel_def inflight_replicate staying_def list_all_iff)

lemma weight_funnel: "weight n funnel = 4 * n + 39"
  by (simp add: weight_def funnel_def sum_list_replicate width_def)

lemma run_wf: "run tr its evs s = Some s' \<Longrightarrow> wf (length its) s \<Longrightarrow> wf (length its) s'"
proof (induction evs arbitrary: s)
  case Nil
  then show ?case by simp
next
  case (Cons ev evs)
  then obtain t where t: "fire tr its ev s = Some t" and r: "run tr its evs t = Some s'"
    by (auto split: option.splits)
  from Cons.IH [OF r wf_fire [OF t Cons.prems(2)]] show ?case .
qed

lemma run_tally:
  "run tr its evs s = Some s' \<Longrightarrow> wf (length its) s \<Longrightarrow> tally tr its s \<Longrightarrow> tally tr its s'"
proof (induction evs arbitrary: s)
  case Nil
  then show ?case by simp
next
  case (Cons ev evs)
  then obtain t where t: "fire tr its ev s = Some t" and r: "run tr its evs t = Some s'"
    by (auto split: option.splits)
  from Cons.IH [OF r wf_fire [OF t Cons.prems(2)] tally_fire [OF t Cons.prems(2,3)]]
  show ?case .
qed

lemma run_weight:
  "run tr its evs s = Some s' \<Longrightarrow> wf (length its) s \<Longrightarrow>
     length evs + weight (length its) s' \<le> weight (length its) s"
proof (induction evs arbitrary: s)
  case Nil
  then show ?case by simp
next
  case (Cons ev evs)
  then obtain t where t: "fire tr its ev s = Some t" and r: "run tr its evs t = Some s'"
    by (auto split: option.splits)
  from Cons.IH [OF r wf_fire [OF t Cons.prems(2)]]
    fire_weight [OF t wf_fbound [OF Cons.prems(2)]]
  show ?case by simp
qed

lemma run_length:
  assumes "run tr its evs funnel = Some s"
  shows "length evs \<le> 4 * length its + 39"
  using run_weight [OF assms wf_funnel] by (simp add: weight_funnel)

section \<open>The pipeline does not stall while done is open\<close>

text \<open>A worker that has not called \<open>wg.Done()\<close> can move once \<open>paths\<close> is closed.\<close>

lemma worker_moves:
  assumes j: "j < length (workers s)" and l: "workers s ! j \<noteq> WExit"
    and np: "\<not> panicked s" and pc: "paths_closed s"
  shows "\<exists>ev. ev \<noteq> Cancel \<and> ev \<noteq> DrainErr \<and> fire tr its ev s \<noteq> None"
proof (cases "workers s ! j")
  case WRecv
  with j np pc have "fire tr its (WorkerEnd j) s \<noteq> None"
    by (simp add: fire_def)
  then show ?thesis by blast
next
  case (WSend r)
  with j np have "fire tr its (Publish j) s \<noteq> None"
    by (simp add: fire_def send_result_def panic_def)
  then show ?thesis by blast
next
  case (WParked r)
  with j np have "fire tr its (Publish j) s \<noteq> None"
    by (simp add: fire_def send_result_def panic_def)
  then show ?thesis by blast
next
  case WRet
  with j np have "fire tr its (WgDone j) s \<noteq> None"
    by (simp add: fire_def panic_def)
  then show ?thesis by blast
next
  case WExit
  with l show ?thesis by simp
qed

lemma drained_moves:
  assumes w: "wf n s" and pc: "paths_closed s" and nc: "\<not> c_closed s"
  shows "\<exists>ev. ev \<noteq> Cancel \<and> ev \<noteq> DrainErr \<and> fire tr its ev s \<noteq> None"
proof (cases "\<exists>j < length (workers s). workers s ! j \<noteq> WExit")
  case True
  then obtain j where "j < length (workers s)" "workers s ! j \<noteq> WExit" by blast
  then show ?thesis
    using worker_moves [of j s tr its] w pc by (simp add: wf_def)
next
  case False
  then have z: "wg s = 0"
    using w by (simp add: wf_def alive_zero_iff)
  have np: "\<not> panicked s" using w by (simp add: wf_def)
  show ?thesis
  proof (cases "tracker s")
    case TWait
    with z np have "fire tr its TrackerWake s \<noteq> None" by (simp add: fire_def)
    then show ?thesis by blast
  next
    case TClose
    with np have "fire tr its TrackerClose s \<noteq> None" by (simp add: fire_def panic_def)
    then show ?thesis by blast
  next
    case TExit
    with w nc show ?thesis by (simp add: wf_def)
  qed
qed

lemma width_pos: "0 < width"
  by (simp add: width_def)

lemma progress_open:
  assumes w: "wf (length its) s" and t: "tally tr its s"
    and nd: "\<not> done_closed s" and nc: "\<not> c_closed s"
  shows "\<exists>ev. ev \<noteq> Cancel \<and> ev \<noteq> DrainErr \<and> fire tr its ev s \<noteq> None"
proof (cases "feeder s")
  case (FOffer k)
  have np: "\<not> panicked s" using w by (simp add: wf_def)
  show ?thesis
  proof (cases "k < length its")
    case True
    with FOffer nd np have "fire tr its FeederPark s \<noteq> None" by (simp add: fire_def)
    then show ?thesis by blast
  next
    case False
    moreover have "\<not> paths_closed s" using wf_paths [OF w] FOffer by simp
    ultimately have "fire tr its FeederClose s \<noteq> None"
      using FOffer np by (simp add: fire_def)
    then show ?thesis by blast
  qed
next
  case (FParked k)
  have np: "\<not> panicked s" and len: "0 < length (workers s)"
    using w width_pos by (simp_all add: wf_def)
  have k: "k < length its" using wf_fbound [OF w] FParked by simp
  have npc: "\<not> paths_closed s" using wf_paths [OF w] FParked by simp
  with t nd have st: "staying (workers s)" by (simp add: tally_def)
  show ?thesis
  proof (cases "workers s ! 0")
    case WRecv
    with FParked k len np npc have "fire tr its (Offer 0) s \<noteq> None"
      by (simp add: fire_def send_path_def)
    then show ?thesis by blast
  next
    case (WSend r)
    with len np nc have "fire tr its (Publish 0) s \<noteq> None"
      by (simp add: fire_def send_result_def)
    then show ?thesis by blast
  next
    case (WParked r)
    with len np nc have "fire tr its (Publish 0) s \<noteq> None"
      by (simp add: fire_def send_result_def)
    then show ?thesis by blast
  next
    case WRet
    with staying_nth [OF st len] show ?thesis by simp
  next
    case WExit
    with staying_nth [OF st len] show ?thesis by simp
  qed
next
  case (FErr k)
  with t nd show ?thesis by (simp add: tally_def)
next
  case FExit
  then have "paths_closed s" using wf_paths [OF w] by simp
  from drained_moves [OF w this nc] show ?thesis .
qed

lemma closed_all_exited:
  assumes w: "wf n s" and c: "c_closed s"
  shows "\<forall>j < length (workers s). workers s ! j = WExit"
proof -
  from w c have "alive (workers s) = 0" by (auto simp: wf_def)
  then show ?thesis by (simp add: alive_zero_iff)
qed

lemma inflight_none: "\<forall>w \<in> set ws. held w = {#} \<Longrightarrow> inflight ws = {#}"
  by (induction ws) (simp_all add: inflight_def)

lemma inflight_exited: "\<forall>j < length ws. ws ! j = WExit \<Longrightarrow> inflight ws = {#}"
  by (rule inflight_none) (auto simp: in_set_conv_nth)

lemma closed_tally:
  assumes w: "wf (length its) s" and t: "tally tr its s"
    and nd: "\<not> done_closed s" and c: "c_closed s"
  shows "mset (received s) = mset (map tr its)"
proof -
  note ex = closed_all_exited [OF w c]
  have len: "0 < length (workers s)" using w width_pos by (simp add: wf_def)
  with ex have "workers s ! 0 = WExit" by simp
  then have "\<not> staying (workers s)"
    using staying_nth [of "workers s" 0] len by auto
  with t nd have "paths_closed s" by (auto simp: tally_def)
  then have "feeder s = FExit" using wf_paths [OF w] by simp
  with t nd inflight_exited [OF ex] show ?thesis
    by (simp add: tally_def)
qed

section \<open>Completeness without cancellation\<close>

text \<open>
  C1: take any list of files and any execution in which \<open>done\<close> is never closed. Once
  \<open>c\<close> is closed the consumer has received exactly as many Results as there are files,
  and their path fields are the offered identifiers, each as often as it was offered (a
  one-to-one correspondence between items and Results). Until then an event other than
  cancellation can always happen, the consumer being ready to receive; and the execution
  has at most \<open>4 N + 39\<close> events, so it does get there.
\<close>

theorem funnel_complete:
  assumes "run (digest_body env) (offered Join fi) evs funnel = Some s"
    and "\<not> done_closed s"
  shows "(c_closed s \<longrightarrow>
            length (received s) = length (fsi fi) \<and>
            mset (map path (received s)) = mset (offered Join fi)) \<and>
         (\<not> c_closed s \<longrightarrow>
            (\<exists>ev. ev \<noteq> Cancel \<and> fire (digest_body env) (offered Join fi) ev s \<noteq> None)) \<and>
         length evs \<le> 4 * length (fsi fi) + 39"
proof -
  let ?its = "offered Join fi"
  have n: "length ?its = length (fsi fi)" by (simp add: offered_def)
  have w: "wf (length ?its) s" using run_wf [OF assms(1) wf_funnel] .
  have t: "tally (digest_body env) ?its s"
    using run_tally [OF assms(1) wf_funnel tally_funnel] .
  have p: "path \<circ> digest_body env = id"
    by (auto simp: digest_body_def Let_def split: sum.splits prod.splits option.splits)
  have "mset (map path (received s)) = mset ?its \<and> length (received s) = length (fsi fi)"
    if "c_closed s"
  proof -
    have m: "mset (received s) = mset (map (digest_body env) ?its)"
      using closed_tally [OF w t assms(2) that] .
    then have "image_mset path (mset (received s)) = image_mset path (mset (map (digest_body env) ?its))"
      by simp
    then have "mset (map path (received s)) = mset ?its"
      by (simp add: p multiset.map_comp)
    moreover have "length (received s) = length (fsi fi)"
      using mset_eq_length [OF m] n by simp
    ultimately show ?thesis by simp
  qed
  moreover have "\<exists>ev. ev \<noteq> Cancel \<and> fire (digest_body env) ?its ev s \<noteq> None" if "\<not> c_closed s"
    using progress_open [OF w t assms(2) that] by blast
  moreover have "length evs \<le> 4 * length (fsi fi) + 39"
    using run_length [OF assms(1)] n by simp
  ultimately show ?thesis by blast
qed

lemma run0: "run (digest_body env0) (offered Join0 fi0) schedule0 funnel = Some final0"
  by code_simp

theorem funnel_complete_witness:
  "run (digest_body env0) (offered Join0 fi0) schedule0 funnel = Some final0 \<and>
   \<not> done_closed final0 \<and> c_closed final0 \<and>
   length (received final0) = length (fsi fi0) \<and>
   mset (map path (received final0)) = mset (offered Join0 fi0) \<and>
   length schedule0 \<le> 4 * length (fsi fi0) + 39 \<and>
   run (digest_body env0) (offered Join0 fi0) [] funnel = Some funnel \<and>
   \<not> done_closed funnel \<and> \<not> c_closed funnel \<and>
   (\<exists>ev. ev \<noteq> Cancel \<and> fire (digest_body env0) (offered Join0 fi0) ev funnel \<noteq> None)"
proof -
  have r: "run (digest_body env0) (offered Join0 fi0) schedule0 funnel = Some final0"
    by code_simp
  have d: "\<not> done_closed final0" "c_closed final0"
    by (simp_all add: final0_def)
  have r': "run (digest_body env0) (offered Join0 fi0) [] funnel = Some funnel"
    by simp
  have d': "\<not> done_closed funnel" "\<not> c_closed funnel"
    by (simp_all add: funnel_def)
  show ?thesis
    using funnel_complete [OF r d(1)] funnel_complete [OF r' d'(1)] r d r' d' by simp
qed

section \<open>Failures of items stay in their Results\<close>

lemma inflight_update_subset:
  assumes "j < length ws"
  shows "set_mset (inflight (ws[j := w])) \<subseteq> set_mset (inflight ws) \<union> set_mset (held w)"
proof -
  have "set_mset (inflight (ws[j := w]) + held (ws ! j)) = set_mset (inflight ws + held w)"
    using inflight_update [OF assms, of w] by simp
  then show ?thesis by auto
qed

lemma held_nth_inflight: "j < length ws \<Longrightarrow> set_mset (held (ws ! j)) \<subseteq> set_mset (inflight ws)"
proof (induction ws arbitrary: j)
  case Nil
  then show ?case by simp
next
  case (Cons a ws)
  then show ?case by (cases j) (auto simp: inflight_def)
qed

lemma inflight_map_wake: "set_mset (inflight (map wake_worker ws)) \<subseteq> set_mset (inflight ws)"
proof (induction ws)
  case Nil
  then show ?case by simp
next
  case (Cons a ws)
  then show ?case by (cases a) (auto simp: inflight_def)
qed

lemma genuine_fire:
  assumes f: "fire tr its ev s = Some s'" and g: "genuine tr its s"
  shows "genuine tr its s'"
proof (cases ev)
  case (Offer j)
  with f obtain k where k: "k < length its" and j: "j < length (workers s)"
    and s': "s' = s\<lparr>panicked := True\<rparr> \<or>
      s' = s\<lparr>feeder := FOffer (Suc k), workers := (workers s)[j := WSend (tr (its ! k))]\<rparr>"
    by (auto simp: fire_Offer)
  have "tr (its ! k) \<in> tr ` set its" using k by simp
  with g inflight_update_subset [OF j, of "WSend (tr (its ! k))"] s' show ?thesis
    by (auto simp: genuine_def)
next
  case (WorkerEnd j)
  with f have j: "j < length (workers s)" and s': "s' = s\<lparr>workers := (workers s)[j := WRet]\<rparr>"
    by (auto simp: fire_WorkerEnd)
  with g inflight_update_subset [OF j, of WRet] show ?thesis
    by (auto simp: genuine_def)
next
  case (Publish j)
  with f obtain r where j: "j < length (workers s)"
    and r: "workers s ! j = WSend r \<or> workers s ! j = WParked r"
    and s': "s' = s\<lparr>panicked := True\<rparr> \<or>
         s' = s\<lparr>received := received s @ [r], workers := (workers s)[j := WRecv]\<rparr>"
    by (auto simp: fire_Publish)
  have "r \<in> set_mset (inflight (workers s))"
    using held_nth_inflight [OF j] r by auto
  with g inflight_update_subset [OF j, of WRecv] s' show ?thesis
    by (auto simp: genuine_def)
next
  case (WorkerPark j)
  with f obtain r where j: "j < length (workers s)" and r: "workers s ! j = WSend r"
    and s': "s' = s\<lparr>workers := (workers s)[j := WParked r]\<rparr>"
    by (auto simp: fire_WorkerPark)
  have "r \<in> set_mset (inflight (workers s))"
    using held_nth_inflight [OF j] r by auto
  with g inflight_update_subset [OF j, of "WParked r"] s' show ?thesis
    by (auto simp: genuine_def)
next
  case (WorkerAbandon j)
  with f have j: "j < length (workers s)" and s': "s' = s\<lparr>workers := (workers s)[j := WRet]\<rparr>"
    by (auto simp: fire_WorkerAbandon)
  with g inflight_update_subset [OF j, of WRet] show ?thesis
    by (auto simp: genuine_def)
next
  case (WgDone j)
  with f have j: "j < length (workers s)"
    and s': "s' = s\<lparr>panicked := True\<rparr> \<or>
        s' = s\<lparr>wg := wg s - 1, workers := (workers s)[j := WExit]\<rparr>"
    by (auto simp: fire_WgDone)
  with g inflight_update_subset [OF j, of WExit] show ?thesis
    by (auto simp: genuine_def)
next
  case Cancel
  with f g inflight_map_wake [of "workers s"] show ?thesis
    by (auto simp: fire_Cancel genuine_def)
qed (use f g in \<open>auto simp: fire_iff genuine_def\<close>)

lemma run_genuine:
  "run tr its evs s = Some s' \<Longrightarrow> genuine tr its s \<Longrightarrow> genuine tr its s'"
proof (induction evs arbitrary: s)
  case Nil
  then show ?case by simp
next
  case (Cons ev evs)
  then obtain t where t: "fire tr its ev s = Some t" and r: "run tr its evs t = Some s'"
    by (auto split: option.splits)
  from Cons.IH [OF r genuine_fire [OF t Cons.prems(2)]] show ?case .
qed

lemma genuine_funnel: "genuine tr its funnel"
  by (simp add: genuine_def funnel_def inflight_replicate)

lemma path_digest_body: "path (digest_body env p) = p"
  by (auto simp: digest_body_def Let_def split: sum.splits prod.splits option.splits)

text \<open>
  C6: whatever the body of \<open>digest\<close> returns for the items (so whichever of them fail),
  \<open>errc\<close> is written by the cancellation branch of the feeder only: it is empty as long
  as \<open>done\<close> is open and never holds anything but the \<open>canceled\<close> error. Every Result
  received is the Result of its own path, so a failure sits in the Result of the item that
  failed; and without cancellation the other items are processed all the same: the
  pipeline can always move on until \<open>c\<close> is closed, and then the Results received are
  those of all the items.
\<close>

theorem item_failures_isolated:
  assumes "run (digest_body env) its evs funnel = Some s"
  shows "(\<not> done_closed s \<longrightarrow> errc s = []) \<and>
         set (errc s) \<subseteq> {errors_New ''canceled''} \<and>
         (\<forall>r \<in> set (received s). path r \<in> set its \<and> r = digest_body env (path r)) \<and>
         (\<not> done_closed s \<and> c_closed s \<longrightarrow>
            mset (received s) = mset (map (digest_body env) its)) \<and>
         (\<not> done_closed s \<and> \<not> c_closed s \<longrightarrow>
            (\<exists>ev. ev \<noteq> Cancel \<and> fire (digest_body env) its ev s \<noteq> None))"
proof -
  have w: "wf (length its) s" using run_wf [OF assms wf_funnel] .
  have t: "tally (digest_body env) its s"
    using run_tally [OF assms wf_funnel tally_funnel] .
  have g: "genuine (digest_body env) its s"
    using run_genuine [OF assms genuine_funnel] .
  have "errc s = []" if "\<not> done_closed s"
    using t that by (simp add: tally_def)
  moreover have "set (errc s) \<subseteq> {errors_New ''canceled''}"
    using w by (simp add: wf_def)
  moreover have "path r \<in> set its \<and> r = digest_body env (path r)" if "r \<in> set (received s)" for r
  proof -
    from g that obtain p where "p \<in> set its" "r = digest_body env p"
      by (auto simp: genuine_def)
    then show ?thesis by (simp add: path_digest_body)
  qed
  moreover have "mset (received s) = mset (map (digest_body env) its)"
    if "\<not> done_closed s" "c_closed s"
    using closed_tally [OF w t that] .
  moreover have "\<exists>ev. ev \<noteq> Cancel \<and> fire (digest_body env) its ev s \<noteq> None"
    if "\<not> done_closed s" "\<not> c_closed s"
    using progress_open [OF w t that] by blast
  ultimately show ?thesis by blast
qed

theorem item_failures_isolated_witness:
  "run (digest_body env0) (offered Join0 fi0) schedule0 funnel = Some final0 \<and>
   \<not> done_closed final0 \<and> c_closed final0 \<and> errc final0 = [] \<and>
   received final0 = [digest_body env0 ''b.gz'', digest_body env0 ''a.gz''] \<and>
   err (digest_body env0 ''b.gz'') = Some (lib_error ''gzip: invalid header'') \<and>
   mset (received final0) = mset (map (digest_body env0) (offered Join0 fi0)) \<and>
   run (digest_body env0) (offered Join0 fi0) [] funnel = Some funnel \<and>
   \<not> done_closed funnel \<and> \<not> c_closed funnel \<and>
   (\<exists>ev. ev \<noteq> Cancel \<and> fire (digest_body env0) (offered Join0 fi0) ev funnel \<noteq> None)"
proof -
  have d: "\<not> done_closed final0" "c_closed final0"
    by (simp_all add: final0_def)
  have r': "run (digest_body env0) (offered Join0 fi0) [] funnel = Some funnel"
    by simp
  have d': "\<not> done_closed funnel" "\<not> c_closed funnel"
    by (simp_all add: funnel_def)
  have e: "received final0 = [digest_body env0 ''b.gz'', digest_body env0 ''a.gz'']"
    "err (digest_body env0 ''b.gz'') = Some (lib_error ''gzip: invalid header'')"
    by (simp_all add: final0_def digest_body_def env0_def)
  show ?thesis
    using item_failures_isolated [OF run0] item_failures_isolated [OF r'] run0 d r' d' e
    by simp
qed

section \<open>The empty list of files\<close>

lemma list_all_update:
  "list_all P ws \<Longrightarrow> P w \<Longrightarrow> list_all P (ws[j := w])"
  unfolding list_all_iff using set_update_subset_insert [of ws j w] by blast

lemma list_all_nth: "list_all P ws \<Longrightarrow> j < length ws \<Longrightarrow> P (ws ! j)"
  unfolding list_all_iff by simp

lemma idle_fire:
  assumes f: "fire tr [] ev s = Some s'" and i: "idle s"
  shows "idle s'"
proof (cases ev)
  case (Offer j)
  with f show ?thesis by (auto simp: fire_Offer)
next
  case FeederPark
  with f show ?thesis by (auto simp: fire_FeederPark)
next
  case FeederDone
  with f show ?thesis by (auto simp: fire_FeederDone)
next
  case FeederErr
  with f i show ?thesis by (auto simp: fire_FeederErr idle_def)
next
  case FeederClose
  with f i show ?thesis
    by (auto simp: fire_FeederClose idle_def list_all_iff)
next
  case (WorkerEnd j)
  with f i show ?thesis
    by (auto simp: fire_WorkerEnd idle_def intro: list_all_update)
next
  case (Publish j)
  with f i list_all_nth [of _ "workers s" j] show ?thesis
    by (fastforce simp: fire_Publish idle_def)
next
  case (WorkerPark j)
  with f i list_all_nth [of _ "workers s" j] show ?thesis
    by (fastforce simp: fire_WorkerPark idle_def)
next
  case (WorkerAbandon j)
  with f i list_all_nth [of _ "workers s" j] show ?thesis
    by (fastforce simp: fire_WorkerAbandon idle_def)
next
  case (WgDone j)
  with f have j: "j < length (workers s)" "workers s ! j = WRet"
    and s': "s' = s\<lparr>panicked := True\<rparr> \<or>
        s' = s\<lparr>wg := wg s - 1, workers := (workers s)[j := WExit]\<rparr>"
    by (auto simp: fire_WgDone)
  from i j list_all_nth [of _ "workers s" j] have "paths_closed s"
    by (fastforce simp: idle_def)
  with i s' show ?thesis
    by (auto simp: idle_def intro: list_all_update)
next
  case TrackerWake
  with f i show ?thesis by (auto simp: fire_TrackerWake idle_def)
next
  case TrackerClose
  with f i show ?thesis by (auto simp: fire_TrackerClose idle_def)
next
  case Cancel
  have "wake_worker w = w" if "w = WRecv \<or> paths_closed s \<and> (w = WRet \<or> w = WExit)" for w
    using that by auto
  then have "map wake_worker (workers s) = workers s"
    using i by (auto simp: idle_def list_all_iff intro: map_idI)
  with Cancel f i show ?thesis
    by (auto simp: fire_Cancel idle_def)
next
  case DrainErr
  with f i show ?thesis by (auto simp: fire_DrainErr idle_def)
qed

lemma run_idle: "run tr [] evs s = Some s' \<Longrightarrow> idle s \<Longrightarrow> idle s'"
proof (induction evs arbitrary: s)
  case Nil
  then show ?case by simp
next
  case (Cons ev evs)
  then obtain t where t: "fire tr [] ev s = Some t" and r: "run tr [] evs t = Some s'"
    by (auto split: option.splits)
  from Cons.IH [OF r idle_fire [OF t Cons.prems(2)]] show ?case .
qed

lemma idle_funnel: "idle funnel"
  by (simp add: idle_def funnel_def list_all_iff)

text \<open>
  C9: with an empty list of files, in every execution (cancelled or not) the consumer
  receives no Result and \<open>errc\<close> stays empty; the only thing the feeder can do is
  \<open>close(paths)\<close>, and it can do it at once; a worker leaves \<open>digest\<close> only through the
  end of \<open>range paths\<close>, after \<open>paths\<close> is closed; \<open>c\<close> is closed only after \<open>paths\<close> is
  closed and all the workers have called \<open>wg.Done()\<close>; and it does get closed: until then
  some goroutine can move, and no execution has more than 39 events.
\<close>

theorem empty_list_closes:
  assumes "fsi fi = []" and "run tr (offered Join fi) evs funnel = Some s"
  shows "received s = [] \<and> errc s = [] \<and>
         (feeder s = FOffer 0 \<and> \<not> paths_closed s \<and>
            fire tr (offered Join fi) FeederClose s \<noteq> None \<and>
            fire tr (offered Join fi) FeederPark s = None \<and>
            fire tr (offered Join fi) FeederDone s = None \<and>
            (\<forall>j. fire tr (offered Join fi) (Offer j) s = None)
          \<or> feeder s = FExit \<and> paths_closed s) \<and>
         (\<forall>j < width. workers s ! j = WRecv \<or>
            paths_closed s \<and> (workers s ! j = WRet \<or> workers s ! j = WExit)) \<and>
         (c_closed s \<longrightarrow> paths_closed s \<and> (\<forall>j < width. workers s ! j = WExit)) \<and>
         (\<not> c_closed s \<longrightarrow>
            (\<exists>ev. ev \<noteq> Cancel \<and> ev \<noteq> DrainErr \<and> fire tr (offered Join fi) ev s \<noteq> None)) \<and>
         length evs \<le> 39"
proof -
  have its: "offered Join fi = []" using assms(1) by (simp add: offered_def)
  have r: "run tr [] evs funnel = Some s" using assms(2) its by simp
  have w: "wf (length ([]::string list)) s" using run_wf [OF r wf_funnel] .
  have i: "idle s" using run_idle [OF r idle_funnel] .
  have np: "\<not> panicked s" and len: "length (workers s) = width"
    using w by (simp_all add: wf_def)
  note pc = wf_paths [OF w]
  have a: "received s = []" "errc s = []" using i by (simp_all add: idle_def)
  have b: "feeder s = FOffer 0 \<and> \<not> paths_closed s \<and>
            fire tr [] FeederClose s \<noteq> None \<and> fire tr [] FeederPark s = None \<and>
            fire tr [] FeederDone s = None \<and> (\<forall>j. fire tr [] (Offer j) s = None)
          \<or> feeder s = FExit \<and> paths_closed s"
  proof (cases "feeder s = FExit")
    case True
    then show ?thesis using pc by simp
  next
    case False
    then have f: "feeder s = FOffer 0" using i by (simp add: idle_def)
    then have "\<not> paths_closed s" using pc by simp
    with f np show ?thesis
      by (simp add: fire_def send_path_def)
  qed
  have c: "\<forall>j < width. workers s ! j = WRecv \<or>
            paths_closed s \<and> (workers s ! j = WRet \<or> workers s ! j = WExit)"
    using i len by (simp add: idle_def list_all_length)
  have d: "paths_closed s \<and> (\<forall>j < width. workers s ! j = WExit)" if "c_closed s"
  proof -
    have ex: "\<forall>j < width. workers s ! j = WExit"
      using closed_all_exited [OF w that] len by simp
    then have "workers s ! 0 = WExit" using width_pos by simp
    with c width_pos have "paths_closed s" by fastforce
    with ex show ?thesis by simp
  qed
  have e: "\<exists>ev. ev \<noteq> Cancel \<and> ev \<noteq> DrainErr \<and> fire tr [] ev s \<noteq> None" if "\<not> c_closed s"
  proof (cases "paths_closed s")
    case True
    from drained_moves [OF w True that] show ?thesis .
  next
    case False
    with b have "fire tr [] FeederClose s \<noteq> None" by blast
    then show ?thesis by blast
  qed
  have "length evs \<le> 39" using run_length [OF r] by simp
  with a b c d e show ?thesis unfolding its by blast
qed

lemma run1: "run (digest_body env0) (offered Join0 fi1) schedule1 funnel = Some final1"
  by code_simp

theorem empty_list_closes_witness:
  "fsi fi1 = [] \<and>
   run (digest_body env0) (offered Join0 fi1) schedule1 funnel = Some final1 \<and>
   received final1 = [] \<and> errc final1 = [] \<and> feeder final1 = FExit \<and>
   c_closed final1 \<and> paths_closed final1 \<and> length schedule1 \<le> 39 \<and>
   run (digest_body env0) (offered Join0 fi1) [] funnel = Some funnel \<and>
   \<not> c_closed funnel \<and> feeder funnel = FOffer 0 \<and>
   fire (digest_body env0) (offered Join0 fi1) FeederClose funnel \<noteq> None"
proof -
  have a: "fsi fi1 = []" by (simp add: fi1_def)
  have r': "run (digest_body env0) (offered Join0 fi1) [] funnel = Some funnel"
    by simp
  have d: "c_closed final1" "\<not> c_closed funnel" "feeder funnel = FOffer 0" "feeder final1 = FExit"
    by (simp_all add: final1_def funnel_def)
  show ?thesis
    using empty_list_closes [OF a run1] empty_list_closes [OF a r'] a run1 r' d
    by simp
qed

section \<open>A worker woken by cancellation\<close>

lemma fire_length:
  "fire tr its ev s = Some s' \<Longrightarrow> length (workers s') = length (workers s)"
  by (cases ev) (auto simp: fire_iff)

lemma gone_fire:
  assumes f: "fire tr its ev s = Some s'" and j: "j < length (workers s)"
    and g: "gone (workers s ! j)"
  shows "gone (workers s' ! j) \<and> (workers s ! j = WExit \<longrightarrow> workers s' ! j = WExit) \<and>
         ev \<noteq> Offer j \<and> ev \<noteq> Publish j \<and> ev \<noteq> WorkerPark j \<and> ev \<noteq> WorkerEnd j \<and>
         ev \<noteq> WorkerAbandon j"
proof (cases ev)
  case (Offer i)
  with f j g show ?thesis
    by (cases "i = j") (auto simp: fire_Offer)
next
  case (WorkerEnd i)
  with f j g show ?thesis
    by (cases "i = j") (auto simp: fire_WorkerEnd)
next
  case (Publish i)
  with f j g show ?thesis
    by (cases "i = j") (auto simp: fire_Publish)
next
  case (WorkerPark i)
  with f j g show ?thesis
    by (cases "i = j") (auto simp: fire_WorkerPark)
next
  case (WorkerAbandon i)
  with f j g show ?thesis
    by (cases "i = j") (auto simp: fire_WorkerAbandon)
next
  case (WgDone i)
  with f j g show ?thesis
    by (cases "i = j") (auto simp: fire_WgDone)
next
  case Cancel
  have "wake_worker w = w" if "gone w" for w using that by (cases w) simp_all
  with Cancel f j g show ?thesis
    by (auto simp: fire_Cancel)
qed (use f j g in \<open>auto simp: fire_iff\<close>)

lemma gone_run:
  assumes "run tr its evs s = Some s'" and "j < length (workers s)" and "gone (workers s ! j)"
  shows "gone (workers s' ! j) \<and> (workers s ! j = WExit \<longrightarrow> workers s' ! j = WExit) \<and>
         Offer j \<notin> set evs \<and> Publish j \<notin> set evs \<and> WorkerPark j \<notin> set evs"
  using assms
proof (induction evs arbitrary: s)
  case Nil
  then show ?case by simp
next
  case (Cons ev evs)
  then obtain t where t: "fire tr its ev s = Some t" and r: "run tr its evs t = Some s'"
    by (auto split: option.splits)
  note g = gone_fire [OF t Cons.prems(2,3)]
  have l: "j < length (workers t)" using fire_length [OF t] Cons.prems(2) by simp
  from g have gt: "gone (workers t ! j)" by blast
  from Cons.IH [OF r l gt] g show ?case by auto
qed

text \<open>
  C7: a worker is blocked in the \<open>select\<close> of line 123 with its Result \<open>r\<close>, and \<open>done\<close> is
  closed. The worker is then out of \<open>digest\<close> with \<open>wg.Done()\<close> as its next step, which it
  can take at once (it is not blocked on \<open>c\<close>); nothing was received from it; and in
  everything that follows it stays out: it publishes nothing, is offered no item and
  never blocks in the \<open>select\<close> again.
\<close>

theorem cancel_abandons_result:
  assumes "run tr its evs funnel = Some s" and "j < width"
    and "workers s ! j = WParked r"
    and "fire tr its Cancel s = Some s'" and "run tr its evs' s' = Some s''"
  shows "workers s' ! j = WRet \<and> received s' = received s \<and>
         fire tr its (WgDone j) s' \<noteq> None \<and>
         (workers s'' ! j = WRet \<or> workers s'' ! j = WExit) \<and>
         Publish j \<notin> set evs' \<and> Offer j \<notin> set evs' \<and> WorkerPark j \<notin> set evs'"
proof -
  have w: "wf (length its) s" using run_wf [OF assms(1) wf_funnel] .
  have len: "j < length (workers s)" using w assms(2) by (simp add: wf_def)
  have s': "s' = s\<lparr>done_closed := True, feeder := wake_feeder (feeder s),
            workers := map wake_worker (workers s)\<rparr>" and np: "\<not> panicked s"
    using assms(4) by (simp_all add: fire_Cancel)
  have a: "workers s' ! j = WRet" "received s' = received s" "j < length (workers s')"
    using s' len assms(3) by simp_all
  have b: "fire tr its (WgDone j) s' \<noteq> None"
    using a s' np by (simp add: fire_def panic_def)
  from gone_run [OF assms(5) a(3)] a(1)
  have c: "gone (workers s'' ! j)" "Offer j \<notin> set evs'" "Publish j \<notin> set evs'"
    "WorkerPark j \<notin> set evs'"
    by simp_all
  from c(1) have "workers s'' ! j = WRet \<or> workers s'' ! j = WExit"
    by (cases "workers s'' ! j") simp_all
  with a b c show ?thesis by simp
qed

lemma run7: "run (digest_body env0) its0 [Offer 0, WorkerPark 0] funnel = Some parked0"
  by code_simp

lemma run7': "run (digest_body env0) its0 [FeederDone, FeederErr, WgDone 0] woken0 = Some later0"
  by code_simp

theorem cancel_abandons_result_witness:
  "run (digest_body env0) its0 [Offer 0, WorkerPark 0] funnel = Some parked0 \<and>
   (0::nat) < width \<and> workers parked0 ! 0 = WParked (digest_body env0 ''a.gz'') \<and>
   fire (digest_body env0) its0 Cancel parked0 = Some woken0 \<and>
   run (digest_body env0) its0 [FeederDone, FeederErr, WgDone 0] woken0 = Some later0 \<and>
   workers woken0 ! 0 = WRet \<and> received woken0 = received parked0 \<and>
   fire (digest_body env0) its0 (WgDone 0) woken0 \<noteq> None \<and>
   workers later0 ! 0 = WExit \<and>
   Publish 0 \<notin> set [FeederDone, FeederErr, WgDone 0]"
proof -
  have p: "workers parked0 ! 0 = WParked (digest_body env0 ''a.gz'')"
    by (simp add: parked0_def funnel_def width_def)
  have c: "fire (digest_body env0) its0 Cancel parked0 = Some woken0"
    by code_simp
  have l: "workers later0 ! 0 = WExit"
    by (simp add: later0_def funnel_def width_def)
  show ?thesis
    using cancel_abandons_result [OF run7 width_pos p c run7'] run7 width_pos p c run7' l
    by simp
qed

text \<open>
  A worker that reaches the \<open>select\<close> only after \<open>done\<close> was closed finds both cases
  ready when the consumer is receiving, and the \<open>select\<close> may take either: here worker 0
  publishes after the cancellation and is given the next item.
\<close>

lemma select_after_cancel_may_publish:
  "map_option (\<lambda>s. (received s, workers s ! 0, done_closed s))
     (run (digest_body env0) its0 [Offer 0, Cancel, Publish 0, Offer 0] funnel)
   = Some ([digest_body env0 ''a.gz''], WSend (digest_body env0 ''b.gz''), True)"
  by code_simp

section \<open>Closing the output channel\<close>

lemma closes_fire:
  assumes f: "fire tr its ev s = Some s'" and w: "wf n s"
  shows "closed_count s + count_list [ev] TrackerClose = closed_count s'"
proof (cases ev)
  case TrackerClose
  with f w show ?thesis
    by (auto simp: fire_TrackerClose wf_def closed_count_def)
next
  case (Offer j)
  with f w show ?thesis by (auto simp: fire_Offer wf_def closed_count_def)
next
  case FeederClose
  with f w show ?thesis by (auto simp: fire_FeederClose wf_def closed_count_def)
next
  case (Publish j)
  with f show ?thesis by (auto simp: fire_Publish closed_count_def)
next
  case (WgDone j)
  with f show ?thesis by (auto simp: fire_WgDone closed_count_def)
qed (use f in \<open>auto simp: fire_iff closed_count_def\<close>)

lemma closes_run:
  "run tr its evs s = Some s' \<Longrightarrow> wf (length its) s \<Longrightarrow>
     closed_count s + count_list evs TrackerClose = closed_count s'"
proof (induction evs arbitrary: s)
  case Nil
  then show ?case by simp
next
  case (Cons ev evs)
  then obtain t where t: "fire tr its ev s = Some t" and r: "run tr its evs t = Some s'"
    by (auto split: option.splits)
  from Cons.IH [OF r wf_fire [OF t Cons.prems(2)]] closes_fire [OF t Cons.prems(2)]
  show ?case by (auto split: if_splits)
qed

text \<open>
  The closing protocol of the tracker: in every execution \<open>close(c)\<close> happens at most once
  and nothing panics; it can happen, and \<open>c\<close> is closed, only when all 16 workers have called
  \<open>wg.Done()\<close>, which is for good (such a worker never moves or publishes again), so that
  no publish is possible on the closed channel; once all workers are there, the tracker
  can go on to the close; and when \<open>done\<close> is never closed the close does happen, exactly
  once: until then something other than cancellation can happen, and the execution has
  at most \<open>4 N + 39\<close> events.
\<close>

lemma c_closed_once:
  assumes "run tr its evs funnel = Some s"
  shows "count_list evs TrackerClose \<le> 1 \<and>
         (c_closed s \<longleftrightarrow> count_list evs TrackerClose = 1) \<and>
         \<not> panicked s \<and>
         (c_closed s \<or> fire tr its TrackerClose s \<noteq> None \<longrightarrow>
            (\<forall>j < width. workers s ! j = WExit) \<and>
            (\<forall>j. fire tr its (Publish j) s = None)) \<and>
         (\<forall>j evs' s'. j < width \<and> workers s ! j = WExit \<and> run tr its evs' s = Some s' \<longrightarrow>
            workers s' ! j = WExit \<and> Publish j \<notin> set evs') \<and>
         ((\<forall>j < width. workers s ! j = WExit) \<and> \<not> c_closed s \<longrightarrow>
            fire tr its TrackerWake s \<noteq> None \<or> fire tr its TrackerClose s \<noteq> None) \<and>
         (\<not> done_closed s \<and> \<not> c_closed s \<longrightarrow>
            (\<exists>ev. ev \<noteq> Cancel \<and> fire tr its ev s \<noteq> None)) \<and>
         length evs \<le> 4 * length its + 39"
proof -
  have w: "wf (length its) s" using run_wf [OF assms wf_funnel] .
  have t: "tally tr its s" using run_tally [OF assms wf_funnel tally_funnel] .
  have len: "length (workers s) = width" and np: "\<not> panicked s"
    using w by (simp_all add: wf_def)
  have "closed_count funnel = 0" by (simp add: closed_count_def funnel_def)
  with closes_run [OF assms wf_funnel]
  have cnt: "count_list evs TrackerClose = closed_count s" by simp
  then have a: "count_list evs TrackerClose \<le> 1"
    "c_closed s \<longleftrightarrow> count_list evs TrackerClose = 1"
    by (simp_all add: closed_count_def)
  have z: "wg s = 0" if "c_closed s \<or> fire tr its TrackerClose s \<noteq> None"
    using that w by (auto simp: wf_def fire_def split: if_splits)
  have b: "(\<forall>j < width. workers s ! j = WExit) \<and> (\<forall>j. fire tr its (Publish j) s = None)"
    if "c_closed s \<or> fire tr its TrackerClose s \<noteq> None"
  proof -
    have "alive (workers s) = 0"
      using z [OF that] w by (simp add: wf_def)
    then have ex: "\<forall>j < length (workers s). workers s ! j = WExit"
      by (simp add: alive_zero_iff)
    then have "fire tr its (Publish j) s = None" for j
      by (auto simp: fire_def)
    with ex len show ?thesis by simp
  qed
  have c: "workers s' ! j = WExit \<and> Publish j \<notin> set evs'"
    if "j < width \<and> workers s ! j = WExit \<and> run tr its evs' s = Some s'" for j evs' s'
  proof -
    from that len have "j < length (workers s)" "gone (workers s ! j)"
      "run tr its evs' s = Some s'" "workers s ! j = WExit"
      by simp_all
    from gone_run [OF this(3,1,2)] this(4) show ?thesis by simp
  qed
  have d: "fire tr its TrackerWake s \<noteq> None \<or> fire tr its TrackerClose s \<noteq> None"
    if "(\<forall>j < width. workers s ! j = WExit) \<and> \<not> c_closed s"
  proof -
    from that len have "alive (workers s) = 0" by (simp add: alive_zero_iff)
    then have "wg s = 0" using w by (simp add: wf_def)
    moreover have "tracker s = TWait \<or> tracker s = TClose"
      using that w by (cases "tracker s") (simp_all add: wf_def)
    ultimately show ?thesis using np that
      by (auto simp: fire_def)
  qed
  have e: "\<exists>ev. ev \<noteq> Cancel \<and> fire tr its ev s \<noteq> None" if "\<not> done_closed s \<and> \<not> c_closed s"
    using progress_open [OF w t] that by blast
  have "length evs \<le> 4 * length its + 39" using run_length [OF assms] .
  with a np b c d e show ?thesis by blast
qed

lemma all_events_indexed:
  "j < m \<Longrightarrow>
     {Offer j, WorkerEnd j, Publish j, WorkerPark j, WorkerAbandon j, WgDone j}
       \<subseteq> set (all_events m)"
  by (auto simp: all_events_def)

lemma all_events_plain:
  "{FeederPark, FeederDone, FeederErr, FeederClose, TrackerWake, TrackerClose, Cancel, DrainErr}
     \<subseteq> set (all_events m)"
  by (simp add: all_events_def)

lemma enabled_complete:
  assumes "fire tr its ev s \<noteq> None"
  shows "ev \<in> set (enabled tr its s)"
proof -
  from assms obtain s' where f: "fire tr its ev s = Some s'" by blast
  have "ev \<in> set (all_events (length (workers s)))"
  proof (cases ev)
    case (Offer j)
    with f have "j < length (workers s)" by (auto simp: fire_Offer)
    with all_events_indexed [of j] Offer show ?thesis by blast
  next
    case (WorkerEnd j)
    with f have "j < length (workers s)" by (auto simp: fire_WorkerEnd)
    with all_events_indexed [of j] WorkerEnd show ?thesis by blast
  next
    case (Publish j)
    with f have "j < length (workers s)" by (auto simp: fire_Publish)
    with all_events_indexed [of j] Publish show ?thesis by blast
  next
    case (WorkerPark j)
    with f have "j < length (workers s)" by (auto simp: fire_WorkerPark)
    with all_events_indexed [of j] WorkerPark show ?thesis by blast
  next
    case (WorkerAbandon j)
    with f have "j < length (workers s)" by (auto simp: fire_WorkerAbandon)
    with all_events_indexed [of j] WorkerAbandon show ?thesis by blast
  next
    case (WgDone j)
    with f have "j < length (workers s)" by (auto simp: fire_WgDone)
    with all_events_indexed [of j] WgDone show ?thesis by blast
  qed (use all_events_plain in auto)
  with assms show ?thesis by (simp add: enabled_def)
qed

lemma run_stuck0:
  "run (digest_body env0) its0 [Cancel, FeederDone, FeederErr, FeederDone] funnel = Some stuck0"
  by code_simp

lemma enabled_stuck0: "enabled (digest_body env0) its0 stuck0 = [DrainErr]"
  by code_simp

lemma c_closed_once_two_files:
  "run (digest_body env0) (offered Join0 fi0) schedule0 funnel = Some final0 \<and>
   c_closed final0 \<and> count_list schedule0 TrackerClose = 1 \<and> \<not> panicked final0 \<and>
   fire (digest_body env0) (offered Join0 fi0) (Publish 0) final0 = None \<and>
   (0::nat) < width \<and> workers final0 ! 0 = WExit \<and>
   length schedule0 \<le> 4 * length (offered Join0 fi0) + 39 \<and>
   run (digest_body env0) (offered Join0 fi0) [] funnel = Some funnel \<and>
   \<not> done_closed funnel \<and> \<not> c_closed funnel \<and>
   (\<exists>ev. ev \<noteq> Cancel \<and> fire (digest_body env0) (offered Join0 fi0) ev funnel \<noteq> None)"
proof -
  note a = c_closed_once [OF run0]
  have d: "c_closed final0"
    by (simp add: final0_def)
  have r': "run (digest_body env0) (offered Join0 fi0) [] funnel = Some funnel"
    by simp
  note b = c_closed_once [OF r']
  have d': "\<not> done_closed funnel" "\<not> c_closed funnel"
    by (simp_all add: funnel_def)
  have 1: "count_list schedule0 TrackerClose = 1" using a d by blast
  have 2: "\<not> panicked final0" using a by blast
  have 3: "fire (digest_body env0) (offered Join0 fi0) (Publish 0) final0 = None"
    using a d by blast
  have 4: "workers final0 ! 0 = WExit" using a d width_pos by blast
  have 5: "length schedule0 \<le> 4 * length (offered Join0 fi0) + 39" using a by blast
  have 6: "\<exists>ev. ev \<noteq> Cancel \<and> fire (digest_body env0) (offered Join0 fi0) ev funnel \<noteq> None"
    using b d' by blast
  from run0 d 1 2 3 4 5 r' d' 6 width_pos show ?thesis by blast
qed

lemma wake_feeder_idem: "wake_feeder (wake_feeder f) = wake_feeder f"
  by (cases f) simp_all

lemma unparked_fire:
  assumes f: "fire tr its ev s = Some s'"
    and u: "done_closed s \<longrightarrow> wake_feeder (feeder s) = feeder s"
  shows "done_closed s' \<longrightarrow> wake_feeder (feeder s') = feeder s'"
proof (cases ev)
  case (Offer j)
  with f u show ?thesis by (auto simp: fire_Offer)
next
  case FeederPark
  with f show ?thesis by (auto simp: fire_FeederPark)
next
  case FeederDone
  with f show ?thesis by (auto simp: fire_FeederDone)
next
  case FeederErr
  with f show ?thesis by (auto simp: fire_FeederErr)
next
  case FeederClose
  with f u show ?thesis by (auto simp: fire_FeederClose)
next
  case Cancel
  with f show ?thesis by (auto simp: fire_Cancel wake_feeder_idem)
qed (use f u in \<open>auto simp: fire_iff\<close>)

lemma run_unparked:
  "run tr its evs s = Some s' \<Longrightarrow> (done_closed s \<longrightarrow> wake_feeder (feeder s) = feeder s) \<Longrightarrow>
     done_closed s' \<longrightarrow> wake_feeder (feeder s') = feeder s'"
proof (induction evs arbitrary: s)
  case Nil
  then show ?case by simp
next
  case (Cons ev evs)
  then obtain t where t: "fire tr its ev s = Some t" and r: "run tr its evs t = Some s'"
    by (auto split: option.splits)
  from Cons.IH [OF r unparked_fire [OF t Cons.prems(2)]] show ?case .
qed

text \<open>
  Cancelled or not, as long as \<open>c\<close> is open something other than the cancellation can
  happen; after a cancellation this may be nothing but the caller's receive from \<open>errc\<close>.
  So \<open>c\<close> does get closed in the executions in which the caller keeps receiving from both
  \<open>c\<close> and \<open>errc\<close>.
\<close>

lemma always_moves_unless_closed:
  assumes r: "run tr its evs funnel = Some s" and nc: "\<not> c_closed s"
  shows "\<exists>ev. ev \<noteq> Cancel \<and> fire tr its ev s \<noteq> None"
proof (cases "done_closed s")
  case False
  have w: "wf (length its) s" using run_wf [OF r wf_funnel] .
  have t: "tally tr its s" using run_tally [OF r wf_funnel tally_funnel] .
  from progress_open [OF w t False nc] show ?thesis by blast
next
  case True
  have w: "wf (length its) s" using run_wf [OF r wf_funnel] .
  have np: "\<not> panicked s" using w by (simp add: wf_def)
  have "done_closed funnel \<longrightarrow> wake_feeder (feeder funnel) = feeder funnel"
    by (simp add: funnel_def)
  from run_unparked [OF r this] True have u: "wake_feeder (feeder s) = feeder s" by simp
  show ?thesis
  proof (cases "feeder s")
    case (FOffer k)
    show ?thesis
    proof (cases "k < length its")
      case True
      with FOffer np \<open>done_closed s\<close> have "fire tr its FeederDone s \<noteq> None"
        by (simp add: fire_def)
      then show ?thesis by blast
    next
      case False
      moreover have "\<not> paths_closed s" using wf_paths [OF w] FOffer by simp
      ultimately have "fire tr its FeederClose s \<noteq> None"
        using FOffer np by (simp add: fire_def)
      then show ?thesis by blast
    qed
  next
    case (FParked k)
    with u show ?thesis by simp
  next
    case (FErr k)
    show ?thesis
    proof (cases "errc s")
      case Nil
      with FErr np have "fire tr its FeederErr s \<noteq> None" by (simp add: fire_def)
      then show ?thesis by blast
    next
      case (Cons e es)
      with np have "fire tr its DrainErr s \<noteq> None" by (simp add: fire_def)
      then show ?thesis by blast
    qed
  next
    case FExit
    then have "paths_closed s" using wf_paths [OF w] by simp
    from drained_moves [OF w this nc] show ?thesis by blast
  qed
qed

text \<open>
  C2 on the files \<open>a.gz\<close> and \<open>b.gz\<close>, \<open>done\<close> being closed before the first offer: the
  feeder takes the \<open>done\<close> case twice and stands at its second write to \<open>errc\<close>, ahead
  of \<open>close(paths)\<close>. No worker has left, \<open>paths\<close> and \<open>c\<close> are open, \<open>close(c)\<close> has
  not happened, and the one event left is the caller's receive from \<open>errc\<close>: \<open>c\<close> is
  closed zero times in the execution that ends here.
\<close>

theorem c_never_closed_after_cancel:
  "run (digest_body env0) its0 [Cancel, FeederDone, FeederErr, FeederDone] funnel = Some stuck0 \<and>
   done_closed stuck0 \<and> \<not> c_closed stuck0 \<and> \<not> paths_closed stuck0 \<and>
   wg stuck0 = 16 \<and> tracker stuck0 = TWait \<and> feeder stuck0 = FErr 1 \<and>
   enabled (digest_body env0) its0 stuck0 = [DrainErr] \<and>
   count_list [Cancel, FeederDone, FeederErr, FeederDone] TrackerClose = 0"
  using run_stuck0 enabled_stuck0 by (simp add: stuck0_def funnel_def width_def)

section \<open>The error channel\<close>







section \<open>The feeder after a cancellation\<close>

text \<open>
  C3 on the files \<open>a.gz\<close> and \<open>b.gz\<close>, \<open>done\<close> being closed before the first offer: the
  feeder takes the \<open>done\<close> case for \<open>a.gz\<close> and writes \<open>canceled\<close>, then goes on with the
  loop. It can hand \<open>b.gz\<close> to worker 0; or it can take the \<open>done\<close> case again and stand
  at a second write of \<open>canceled\<close>, where it can neither finish nor close \<open>paths\<close>.
\<close>

theorem feeder_offers_after_cancel:
  "run (digest_body env0) its0 [Cancel, FeederDone, FeederErr, Offer 0] funnel = Some resumed0 \<and>
   done_closed resumed0 \<and> errc resumed0 = [errors_New ''canceled''] \<and>
   workers resumed0 ! 0 = WSend (digest_body env0 ''b.gz'') \<and>
   run (digest_body env0) its0 [Cancel, FeederDone, FeederErr, FeederDone] funnel = Some stuck0 \<and>
   feeder stuck0 = FErr 1 \<and> errc stuck0 = [errors_New ''canceled''] \<and>
   fire (digest_body env0) its0 FeederErr stuck0 = None \<and>
   fire (digest_body env0) its0 FeederClose stuck0 = None"
proof -
  have "run (digest_body env0) its0 [Cancel, FeederDone, FeederErr, Offer 0] funnel = Some resumed0"
    by code_simp
  moreover have "fire (digest_body env0) its0 FeederErr stuck0 = None"
    "fire (digest_body env0) its0 FeederClose stuck0 = None"
    by code_simp+
  ultimately show ?thesis
    using run_stuck0 by (simp add: stuck0_def resumed0_def funnel_def width_def)
qed

text \<open>
  C5 on three files: worker 0 holds the Result of \<open>a.gz\<close> when \<open>done\<close> is closed and leaves;
  the feeder takes the \<open>done\<close> case for \<open>b.gz\<close> and for \<open>c.gz\<close> and blocks at its second
  write to \<open>errc\<close>. Then \<open>paths\<close> and \<open>c\<close> are open, 15 workers wait in \<open>range paths\<close>, and
  no goroutine of the pipeline can move: the one event left is the caller's receive
  from \<open>errc\<close>.
\<close>

theorem cancel_leaves_pipeline_stalled:
  "run (digest_body env0) its3
     [Offer 0, Cancel, WorkerAbandon 0, WgDone 0, FeederDone, FeederErr, FeederDone] funnel
     = Some stalled0 \<and>
   done_closed stalled0 \<and> \<not> c_closed stalled0 \<and> \<not> paths_closed stalled0 \<and>
   wg stalled0 = 15 \<and> count_list (workers stalled0) WRecv = 15 \<and>
   enabled (digest_body env0) its3 stalled0 = [DrainErr]"
proof -
  have "run (digest_body env0) its3
     [Offer 0, Cancel, WorkerAbandon 0, WgDone 0, FeederDone, FeederErr, FeederDone] funnel
     = Some stalled0"
    by code_simp
  moreover have "enabled (digest_body env0) its3 stalled0 = [DrainErr]"
    by code_simp
  moreover have "count_list (workers stalled0) WRecv = 15"
    by code_simp
  ultimately show ?thesis
    by (simp add: stalled0_def funnel_def)
qed

section \<open>States that wait for the caller\<close>

lemma needs_drain:
  assumes e: "enabled tr its s = [DrainErr]" and r: "run tr its evs s = Some s'"
    and d: "DrainErr \<notin> set evs"
  shows "evs = []"
proof (cases evs)
  case Nil
  then show ?thesis .
next
  case (Cons ev evs')
  with r have "fire tr its ev s \<noteq> None" by (auto split: option.splits)
  from enabled_complete [OF this] e have "ev = DrainErr" by simp
  with d Cons show ?thesis by simp
qed

text \<open>
  From the two states in which the feeder stands at its second write to \<open>errc\<close>, nothing
  happens for as long as the caller does not receive from \<open>errc\<close>. (The loop of \<open>main\<close>
  looks at \<open>errc\<close> only after it has received a Result.)
\<close>

lemma stuck0_needs_drain:
  "run (digest_body env0) its0 evs stuck0 = Some s' \<Longrightarrow> DrainErr \<notin> set evs \<Longrightarrow> evs = []"
  using needs_drain [OF enabled_stuck0] .

lemma enabled_stalled0: "enabled (digest_body env0) its3 stalled0 = [DrainErr]"
  by code_simp

lemma stalled0_needs_drain:
  "run (digest_body env0) its3 evs stalled0 = Some s' \<Longrightarrow> DrainErr \<notin> set evs \<Longrightarrow> evs = []"
  using needs_drain [OF enabled_stalled0] .

text \<open>
  When the caller does empty \<open>errc\<close> each time, the feeder goes through a \<open>select\<close> and a
  write for every item that is left before it closes \<open>paths\<close>.
\<close>

lemma feeder_walks_remaining_items:
  "map_option feeder
     (run (digest_body env0) its3
        [Cancel, FeederDone, FeederErr, DrainErr, FeederDone, FeederErr, DrainErr,
         FeederDone, FeederErr, FeederClose] funnel)
   = Some FExit"
  by code_simp

end
